theory Spec2Isabelle
  imports Main
begin

section \<open>Operation registry (ProgressContext.tsx)\<close>

text \<open>
  The registry of \<^verbatim>\<open>frontend/src/contexts/ProgressContext.tsx\<close>: the React state
  \<^verbatim>\<open>activeOperations\<close> (a JavaScript \<^verbatim>\<open>Map\<close>) and \<^verbatim>\<open>history\<close> (an array), and the
  browser's \<^verbatim>\<open>localStorage\<close>. Every callback of the provider is a function from the
  state before the call to the state after its state updaters have run (once each, as in
  a production build). \<^verbatim>\<open>Date.now()\<close> and \<^verbatim>\<open>Math.random()\<close> are read from the
  environment, so each is a parameter of the function that calls it. Timestamps are
  integers (milliseconds).
\<close>

datatype step_kind = Info | Success | Warning | StepError

record ProgressStep =
  step_id :: string
  message :: string
  timestamp :: int
  step_type :: "step_kind option"

datatype op_status = Active | Completed | Error

record ProgressOperation =
  documentId :: string
  filename :: "string option"
  status :: op_status
  steps :: "ProgressStep list"
  startedAt :: int
  completedAt :: "int option"
  error :: "string option"

subsection \<open>The JavaScript Map of active operations\<close>

text \<open>
  A \<^verbatim>\<open>Map<string, ProgressOperation>\<close> iterates in insertion order, \<^verbatim>\<open>set\<close> on a key
  that is present replaces the value where it stands, and \<^verbatim>\<open>delete\<close> removes the entry.
  The model is a list of entries in iteration order. \<^verbatim>\<open>new Map(prev)\<close> copies the
  entries, which is the identity on values.
\<close>

type_synonym 'v js_map = "(string \<times> 'v) list"

primrec Map_get :: "'v js_map \<Rightarrow> string \<Rightarrow> 'v option" where
  "Map_get [] k = None"
| "Map_get (e # es) k = (if fst e = k then Some (snd e) else Map_get es k)"

primrec Map_set :: "string \<Rightarrow> 'v \<Rightarrow> 'v js_map \<Rightarrow> 'v js_map" where
  "Map_set k v [] = [(k, v)]"
| "Map_set k v (e # es) = (if fst e = k then (k, v) # es else e # Map_set k v es)"

primrec Map_delete :: "string \<Rightarrow> 'v js_map \<Rightarrow> 'v js_map" where
  "Map_delete k [] = []"
| "Map_delete k (e # es) = (if fst e = k then Map_delete k es else e # Map_delete k es)"

definition Map_values :: "'v js_map \<Rightarrow> 'v list" where
  "Map_values m = map snd m"

subsection \<open>localStorage\<close>

text \<open>
  The two snapshots are JSON arrays of operation records; the store is modelled after
  \<^verbatim>\<open>JSON.parse\<close>, as a partial map from the storage key to the array it holds.
\<close>

type_synonym storage = "string \<Rightarrow> ProgressOperation list option"

definition STORAGE_KEY :: string where
  "STORAGE_KEY = ''classification_history''"

definition ACTIVE_STORAGE_KEY :: string where
  "ACTIVE_STORAGE_KEY = ''classification_active''"

definition MAX_HISTORY :: nat where
  "MAX_HISTORY = 50"

definition getItem :: "storage \<Rightarrow> string \<Rightarrow> ProgressOperation list option" where
  "getItem st k = st k"

definition setItem :: "string \<Rightarrow> ProgressOperation list \<Rightarrow> storage \<Rightarrow> storage" where
  "setItem k v st = st(k := Some v)"

definition removeItem :: "string \<Rightarrow> storage \<Rightarrow> storage" where
  "removeItem k st = st(k := None)"

record progress_state =
  activeOperations :: "ProgressOperation js_map"
  history :: "ProgressOperation list"
  localStorage :: storage

subsection \<open>Rendering a timestamp inside a step id\<close>

fun digits :: "nat \<Rightarrow> string" where
  "digits n = (if n < 10 then [char_of (48 + n)]
               else digits (n div 10) @ [char_of (48 + n mod 10)])"

declare digits.simps [simp del]

definition show_int :: "int \<Rightarrow> string" where
  "show_int i = (if i < 0 then CHR ''-'' # digits (nat (- i)) else digits (nat i))"

subsection \<open>The provider's callbacks\<close>

text \<open>\<^verbatim>\<open>startOperation(documentId, filename?)\<close>, lines 179-193.\<close>

definition startOperation ::
  "string \<Rightarrow> string option \<Rightarrow> int \<Rightarrow> progress_state \<Rightarrow> progress_state" where
  "startOperation docId fname now s =
     (let operation = \<lparr>documentId = docId, filename = fname, status = Active, steps = [],
                        startedAt = now, completedAt = None, error = None\<rparr>
      in s\<lparr>activeOperations := Map_set docId operation (activeOperations s)\<rparr>)"

text \<open>
  \<^verbatim>\<open>addProgress(documentId, message, type = 'info')\<close>, lines 198-220. \<^verbatim>\<open>Date.now()\<close> is
  read twice (for the step id, then for the timestamp): \<open>idNow\<close> and \<open>now\<close>; \<open>rnd\<close> is
  the text of \<^verbatim>\<open>Math.random()\<close>. The step is pushed on the operation's own array and a
  copy of the operation is stored under the same key. No history entry shares that
  array: an entry of history is made from an operation in the same update that deletes
  it from the map, and \<^verbatim>\<open>startOperation\<close> always stores a fresh array.
\<close>

definition addProgress ::
  "string \<Rightarrow> string \<Rightarrow> step_kind \<Rightarrow> int \<Rightarrow> string \<Rightarrow> int \<Rightarrow> progress_state \<Rightarrow> progress_state"
  where
  "addProgress docId msg ty idNow rnd now s =
     (case Map_get (activeOperations s) docId of
        Some operation \<Rightarrow>
          (let step = \<lparr>step_id = docId @ ''-'' @ show_int idNow @ ''-'' @ rnd,
                       message = msg, timestamp = now, step_type = Some ty\<rparr>
           in s\<lparr>activeOperations :=
                  Map_set docId (operation\<lparr>steps := steps operation @ [step]\<rparr>)
                    (activeOperations s)\<rparr>)
      | None \<Rightarrow> s)"

text \<open>
  The history updater shared by \<^verbatim>\<open>completeOperation\<close> and \<^verbatim>\<open>errorOperation\<close>
  (lines 243-257 and 289-303): the duplicate test compares the call's document id and
  the operation's \<^verbatim>\<open>startedAt\<close> with every entry of history.
\<close>

definition isDuplicate :: "string \<Rightarrow> int \<Rightarrow> ProgressOperation list \<Rightarrow> bool" where
  "isDuplicate docId started prevHistory =
     list_ex (\<lambda>h. documentId h = docId \<and> startedAt h = started) prevHistory"

definition addToHistory ::
  "string \<Rightarrow> int \<Rightarrow> ProgressOperation \<Rightarrow> ProgressOperation list \<Rightarrow> ProgressOperation list"
  where
  "addToHistory docId started finished prevHistory =
     (if isDuplicate docId started prevHistory then prevHistory
      else take MAX_HISTORY (finished # prevHistory))"

text \<open>\<^verbatim>\<open>completeOperation(documentId)\<close>, lines 225-265.\<close>

definition completeOperation :: "string \<Rightarrow> int \<Rightarrow> progress_state \<Rightarrow> progress_state" where
  "completeOperation docId now s =
     (case Map_get (activeOperations s) docId of
        None \<Rightarrow> s
      | Some operation \<Rightarrow>
          (let completedOperation = operation\<lparr>status := Completed, completedAt := Some now\<rparr>
           in s\<lparr>history := addToHistory docId (startedAt operation) completedOperation (history s),
                activeOperations := Map_delete docId (activeOperations s)\<rparr>))"

text \<open>\<^verbatim>\<open>errorOperation(documentId, error)\<close>, lines 270-311.\<close>

definition errorOperation ::
  "string \<Rightarrow> string \<Rightarrow> int \<Rightarrow> progress_state \<Rightarrow> progress_state" where
  "errorOperation docId err now s =
     (case Map_get (activeOperations s) docId of
        None \<Rightarrow> s
      | Some operation \<Rightarrow>
          (let erroredOperation =
                 operation\<lparr>status := Error, completedAt := Some now, error := Some err\<rparr>
           in s\<lparr>history := addToHistory docId (startedAt operation) erroredOperation (history s),
                activeOperations := Map_delete docId (activeOperations s)\<rparr>))"

text \<open>\<^verbatim>\<open>removeOperation(documentId)\<close>, lines 316-322.\<close>

definition removeOperation :: "string \<Rightarrow> progress_state \<Rightarrow> progress_state" where
  "removeOperation docId s = s\<lparr>activeOperations := Map_delete docId (activeOperations s)\<rparr>"

text \<open>
  \<^verbatim>\<open>clearHistory()\<close>, lines 327-335: the history state is set to the empty array and
  both storage keys are removed. (\<^verbatim>\<open>removeItem\<close> does not throw.)
\<close>

definition clearHistory :: "progress_state \<Rightarrow> progress_state" where
  "clearHistory s =
     s\<lparr>history := [],
       localStorage := removeItem ACTIVE_STORAGE_KEY (removeItem STORAGE_KEY (localStorage s))\<rparr>"

text \<open>\<^verbatim>\<open>getOperation(documentId)\<close>, lines 347-352.\<close>

definition getOperation :: "progress_state \<Rightarrow> string \<Rightarrow> ProgressOperation option" where
  "getOperation s docId = Map_get (activeOperations s) docId"

text \<open>
  The two persistence effects (lines 126-142): after a render in which the state they
  depend on is a new object, the snapshot is rewritten in full. \<open>ok\<close> says whether the
  store accepts the write; a rejected write is logged and nothing else happens.
\<close>

definition persistActive :: "bool \<Rightarrow> progress_state \<Rightarrow> progress_state" where
  "persistActive ok s =
     (if ok then s\<lparr>localStorage :=
                     setItem ACTIVE_STORAGE_KEY (Map_values (activeOperations s)) (localStorage s)\<rparr>
      else s)"

definition persistHistory :: "bool \<Rightarrow> progress_state \<Rightarrow> progress_state" where
  "persistHistory ok s =
     (if ok then s\<lparr>localStorage := setItem STORAGE_KEY (history s) (localStorage s)\<rparr> else s)"

subsection \<open>Loading the persisted state\<close>

text \<open>
  The initialisers of the two \<^verbatim>\<open>useState\<close> calls (lines 100-123): the active snapshot is
  turned back into a Map keyed by \<^verbatim>\<open>documentId\<close>, entry by entry.
\<close>

definition Map_from :: "(string \<times> 'v) list \<Rightarrow> 'v js_map" where
  "Map_from entries = foldl (\<lambda>m e. Map_set (fst e) (snd e) m) [] entries"

definition loadActive :: "storage \<Rightarrow> ProgressOperation js_map" where
  "loadActive st =
     (case getItem st ACTIVE_STORAGE_KEY of
        Some parsed \<Rightarrow> Map_from (map (\<lambda>opn. (documentId opn, opn)) parsed)
      | None \<Rightarrow> [])"

definition loadHistory :: "storage \<Rightarrow> ProgressOperation list" where
  "loadHistory st = (case getItem st STORAGE_KEY of Some parsed \<Rightarrow> parsed | None \<Rightarrow> [])"

definition initialState :: "storage \<Rightarrow> progress_state" where
  "initialState st =
     \<lparr>activeOperations = loadActive st, history = loadHistory st, localStorage = st\<rparr>"

text \<open>
  The effect that runs once on mount (lines 146-174). \<open>staleLoop\<close> is the body of
  \<^verbatim>\<open>prev.forEach\<close>, run over the values of \<^verbatim>\<open>prev\<close> in iteration order with the two
  variables it updates, \<^verbatim>\<open>newMap\<close> and \<^verbatim>\<open>staleOps\<close>.
\<close>

definition fiveMinutes :: int where
  "fiveMinutes = 5 * 60 * 1000"

definition interrupted :: "int \<Rightarrow> ProgressOperation \<Rightarrow> ProgressOperation" where
  "interrupted now opn =
     opn\<lparr>status := Error, completedAt := Some now,
         error := Some ''Operation interrupted (page refresh)''\<rparr>"

primrec staleLoop ::
  "int \<Rightarrow> ProgressOperation list \<Rightarrow> ProgressOperation js_map \<Rightarrow> ProgressOperation list
     \<Rightarrow> ProgressOperation js_map \<times> ProgressOperation list" where
  "staleLoop now [] newMap staleOps = (newMap, staleOps)"
| "staleLoop now (opn # rest) newMap staleOps =
     (if now - startedAt opn > fiveMinutes
      then staleLoop now rest (Map_delete (documentId opn) newMap)
             (staleOps @ [interrupted now opn])
      else staleLoop now rest newMap staleOps)"

definition staleEffect :: "int \<Rightarrow> progress_state \<Rightarrow> progress_state" where
  "staleEffect now s =
     (let prev = activeOperations s;
          r = staleLoop now (Map_values prev) prev [];
          newMap = fst r;
          staleOps = snd r
      in s\<lparr>activeOperations := newMap,
           history := (if length staleOps > 0 then take MAX_HISTORY (staleOps @ history s)
                       else history s)\<rparr>)"

definition mount :: "int \<Rightarrow> storage \<Rightarrow> progress_state" where
  "mount now st = staleEffect now (initialState st)"

subsection \<open>Sequences of registry calls\<close>

datatype registry_op =
    Start string "string option" int
  | AddStep string string step_kind int string int
  | Complete string int
  | Fail string string int
  | Remove string
  | ClearHistory

fun apply_op :: "registry_op \<Rightarrow> progress_state \<Rightarrow> progress_state" where
  "apply_op (Start docId fname now) s = startOperation docId fname now s"
| "apply_op (AddStep docId msg ty idNow rnd now) s = addProgress docId msg ty idNow rnd now s"
| "apply_op (Complete docId now) s = completeOperation docId now s"
| "apply_op (Fail docId err now) s = errorOperation docId err now s"
| "apply_op (Remove docId) s = removeOperation docId s"
| "apply_op ClearHistory s = clearHistory s"

definition run_ops :: "registry_op list \<Rightarrow> progress_state \<Rightarrow> progress_state" where
  "run_ops ops s = foldl (\<lambda>st opn. apply_op opn st) s ops"

definition emptyRegistry :: progress_state where
  "emptyRegistry = initialState (\<lambda>k. None)"

text \<open>The number of history entries with a given document id and start time.\<close>

definition entriesFor :: "string \<Rightarrow> int \<Rightarrow> ProgressOperation list \<Rightarrow> nat" where
  "entriesFor docId started hs =
     length (filter (\<lambda>h. documentId h = docId \<and> startedAt h = started) hs)"

text \<open>
  The registry calls together with the stale check of the mount effect, which runs on
  whatever state was restored.
\<close>

datatype lifecycle_op = Call registry_op | StaleCheck int

fun apply_lifecycle :: "lifecycle_op \<Rightarrow> progress_state \<Rightarrow> progress_state" where
  "apply_lifecycle (Call opn) s = apply_op opn s"
| "apply_lifecycle (StaleCheck now) s = staleEffect now s"

definition run_lifecycle :: "lifecycle_op list \<Rightarrow> progress_state \<Rightarrow> progress_state" where
  "run_lifecycle evs s = foldl (\<lambda>st e. apply_lifecycle e st) s evs"

text \<open>The pair that identifies a history entry, and the pairs started by a call sequence.\<close>

definition entryKey :: "ProgressOperation \<Rightarrow> string \<times> int" where
  "entryKey h = (documentId h, startedAt h)"

fun startKeys :: "registry_op list \<Rightarrow> (string \<times> int) list" where
  "startKeys [] = []"
| "startKeys (Start docId fname now # ops) = (docId, now) # startKeys ops"
| "startKeys (opn # ops) = startKeys ops"

definition freshStarts :: "registry_op list \<Rightarrow> bool" where
  "freshStarts ops = distinct (startKeys ops)"

text \<open>
  Every entry of the active map is stored under its own document id; the history holds
  no two entries with the same pair, every pair in it was started by some
  \<^verbatim>\<open>startOperation\<close> call, and so was every active entry.
\<close>

definition keysOk :: "ProgressOperation js_map \<Rightarrow> bool" where
  "keysOk m = list_all (\<lambda>e. documentId (snd e) = fst e) m"

definition registryInv :: "registry_op list \<Rightarrow> progress_state \<Rightarrow> bool" where
  "registryInv ops s =
     (keysOk (activeOperations s)
      \<and> distinct (map entryKey (history s))
      \<and> set (map entryKey (history s)) \<subseteq> set (startKeys ops)
      \<and> (\<forall>k v. Map_get (activeOperations s) k = Some v \<longrightarrow> (k, startedAt v) \<in> set (startKeys ops)))"

text \<open>No active entry has its pair of document id and start time in history.\<close>

definition activeFresh :: "progress_state \<Rightarrow> bool" where
  "activeFresh s =
     (\<forall>k v. Map_get (activeOperations s) k = Some v \<longrightarrow> \<not> isDuplicate k (startedAt v) (history s))"

text \<open>A document classified, finished, and classified again.\<close>

definition reopened :: "registry_op list" where
  "reopened = [Start ''doc-1'' None 1, Complete ''doc-1'' 2, Start ''doc-1'' None 3]"

section \<open>Event-stream client (subscribeToProgress)\<close>

text \<open>
  \<^verbatim>\<open>classifyApi.subscribeToProgress\<close> (lines 101-205 of the API client). Its closure
  variables are the fields of \<open>sse_state\<close>; the last four fields belong to the
  environment: the timeouts the browser holds (set, and neither fired nor cleared), the
  next timeout handle, whether \<^verbatim>\<open>new EventSource(url)\<close> throws, and the calls the client
  has made so far, in order. \<open>eventSource\<close> says whether the variable holds an
  \<^verbatim>\<open>EventSource\<close> (it is \<^verbatim>\<open>null\<close> otherwise).
\<close>

datatype sse_action =
    NewEventSource
  | CloseEventSource
  | SetTimeout nat nat
  | ClearTimeout nat
  | CallProgress string
  | CallComplete
  | CallError string
  | CleanupComplete

record sse_state =
  eventSource :: bool
  reconnectAttempts :: nat
  isManuallyCloseD :: bool
  reconnectTimer :: "nat option"
  pendingTimers :: "nat list"
  nextHandle :: nat
  ctorThrows :: bool
  actions :: "sse_action list"

definition maxReconnectAttempts :: nat where
  "maxReconnectAttempts = 3"

definition reconnectDelay :: nat where
  "reconnectDelay = 2000"

definition connectionLost :: string where
  "connectionLost = ''Connection lost. Please refresh the page and try again.''"

definition act :: "sse_action \<Rightarrow> sse_state \<Rightarrow> sse_state" where
  "act a s = s\<lparr>actions := actions s @ [a]\<rparr>"

text \<open>\<^verbatim>\<open>cleanup\<close>, lines 187-198.\<close>

definition cleanup :: "sse_state \<Rightarrow> sse_state" where
  "cleanup s =
     (let s1 = s\<lparr>isManuallyCloseD := True\<rparr>;
          s2 = (case reconnectTimer s1 of
                  Some h \<Rightarrow> act (ClearTimeout h)
                              (s1\<lparr>pendingTimers := removeAll h (pendingTimers s1),
                                  reconnectTimer := None\<rparr>)
                | None \<Rightarrow> s1);
          s3 = (if eventSource s2 then act CloseEventSource (s2\<lparr>eventSource := False\<rparr>)
                else s2)
      in act CleanupComplete s3)"

text \<open>
  A callback of the subscriber runs inside the client's handler and holds the cleanup
  function that \<^verbatim>\<open>subscribeToProgress\<close> returned; \<open>reenter\<close> says whether it calls it.
\<close>

definition deliver :: "sse_action \<Rightarrow> bool \<Rightarrow> sse_state \<Rightarrow> sse_state" where
  "deliver cb reenter s = (if reenter then cleanup (act cb s) else act cb s)"

text \<open>\<^verbatim>\<open>connect\<close>, lines 117-185, without the handlers it installs.\<close>

definition connect :: "sse_state \<Rightarrow> sse_state" where
  "connect s =
     (if isManuallyCloseD s then s
      else if ctorThrows s then act (CallError ''Failed to establish connection'') s
      else act NewEventSource (s\<lparr>eventSource := True\<rparr>))"

text \<open>\<^verbatim>\<open>eventSource.onopen\<close>, lines 123-126.\<close>

definition onopen :: "sse_state \<Rightarrow> sse_state" where
  "onopen s = s\<lparr>reconnectAttempts := 0\<rparr>"

text \<open>
  \<^verbatim>\<open>eventSource.onmessage\<close>, lines 128-156. A frame is what the handler makes of
  \<^verbatim>\<open>event.data\<close>: a keepalive comment, text that \<^verbatim>\<open>JSON.parse\<close> rejects, or an object
  with a \<^verbatim>\<open>type\<close>. A progress frame whose message is not a string makes
  \<^verbatim>\<open>data.message.substring\<close> throw inside the \<^verbatim>\<open>try\<close>, so it is skipped like a parse
  error.
\<close>

datatype frame =
    Keepalive
  | Unparsable
  | ConnectedFrame
  | ProgressFrame "string option"
  | CompleteFrame
  | ErrorFrame
  | OtherFrame

fun onmessage :: "frame \<Rightarrow> bool \<Rightarrow> sse_state \<Rightarrow> sse_state" where
  "onmessage Keepalive reenter s = s"
| "onmessage Unparsable reenter s = s"
| "onmessage ConnectedFrame reenter s = s"
| "onmessage (ProgressFrame (Some m)) reenter s = deliver (CallProgress m) reenter s"
| "onmessage (ProgressFrame None) reenter s = s"
| "onmessage CompleteFrame reenter s = cleanup (deliver CallComplete reenter s)"
| "onmessage ErrorFrame reenter s =
     cleanup (deliver (CallError ''Server reported an error during classification'') reenter s)"
| "onmessage OtherFrame reenter s = s"

text \<open>
  \<^verbatim>\<open>eventSource.onerror\<close>, lines 158-180. \<open>closed\<close> says whether the source's
  \<^verbatim>\<open>readyState\<close> is \<^verbatim>\<open>CLOSED\<close> when the handler reads it; with no source the optional
  chain gives \<^verbatim>\<open>undefined\<close> and the test fails.
\<close>

definition onerror :: "bool \<Rightarrow> bool \<Rightarrow> sse_state \<Rightarrow> sse_state" where
  "onerror closed reenter s =
     (if eventSource s \<and> closed then
        (if \<not> isManuallyCloseD s \<and> reconnectAttempts s < maxReconnectAttempts then
           (let h = nextHandle s
            in act (SetTimeout h reconnectDelay)
                 (s\<lparr>reconnectAttempts := reconnectAttempts s + 1,
                    reconnectTimer := Some h,
                    pendingTimers := pendingTimers s @ [h],
                    nextHandle := h + 1\<rparr>))
         else if reconnectAttempts s \<ge> maxReconnectAttempts then
           cleanup (deliver (CallError connectionLost) reenter s)
         else s)
      else s)"

text \<open>
  The callback of the reconnection timeout, lines 170-173. A timeout runs only while
  the browser still holds it.
\<close>

definition reconnectFired :: "nat \<Rightarrow> sse_state \<Rightarrow> sse_state" where
  "reconnectFired h s =
     (if h \<in> set (pendingTimers s) then
        (let s1 = s\<lparr>pendingTimers := removeAll h (pendingTimers s)\<rparr>;
             s2 = (if eventSource s1 then act CloseEventSource s1 else s1)
         in connect s2)
      else s)"

definition subscribeToProgress :: "bool \<Rightarrow> sse_state" where
  "subscribeToProgress throws =
     connect \<lparr>eventSource = False, reconnectAttempts = 0, isManuallyCloseD = False,
              reconnectTimer = None, pendingTimers = [], nextHandle = 1,
              ctorThrows = throws, actions = []\<rparr>"

datatype sse_event =
    Opened
  | Message frame bool
  | ErrorEvent bool bool
  | TimerFired nat
  | Unsubscribe

fun sse_step :: "sse_event \<Rightarrow> sse_state \<Rightarrow> sse_state" where
  "sse_step Opened s = onopen s"
| "sse_step (Message f reenter) s = onmessage f reenter s"
| "sse_step (ErrorEvent closed reenter) s = onerror closed reenter s"
| "sse_step (TimerFired h) s = reconnectFired h s"
| "sse_step Unsubscribe s = cleanup s"

definition sse_run :: "sse_event list \<Rightarrow> sse_state \<Rightarrow> sse_state" where
  "sse_run evs s = foldl (\<lambda>st e. sse_step e st) s evs"

text \<open>What the claims count in the client's calls.\<close>

fun isTimer :: "sse_action \<Rightarrow> bool" where
  "isTimer (SetTimeout h d) = True"
| "isTimer a = False"

fun isConnect :: "sse_action \<Rightarrow> bool" where
  "isConnect NewEventSource = True"
| "isConnect a = False"

definition isRetry :: "sse_action \<Rightarrow> bool" where
  "isRetry a = (isTimer a \<or> a = NewEventSource)"

definition lostCalls :: "sse_state \<Rightarrow> nat" where
  "lostCalls s = count_list (actions s) (CallError connectionLost)"

definition beforeLost :: "sse_state \<Rightarrow> sse_action list" where
  "beforeLost s = takeWhile (\<lambda>a. a \<noteq> CallError connectionLost) (actions s)"

definition afterLost :: "sse_state \<Rightarrow> sse_action list" where
  "afterLost s = dropWhile (\<lambda>a. a \<noteq> CallError connectionLost) (actions s)"

definition cleanupCalls :: "sse_state \<Rightarrow> nat" where
  "cleanupCalls s = count_list (actions s) CleanupComplete"

subsection \<open>The browser's side of the event source\<close>

text \<open>
  \<open>sse_run\<close> accepts every sequence of events. A browser delivers fewer: an
  \<^verbatim>\<open>EventSource\<close> fires \<^verbatim>\<open>open\<close>, \<^verbatim>\<open>message\<close> and \<^verbatim>\<open>error\<close> events only while its
  \<^verbatim>\<open>readyState\<close> is not \<^verbatim>\<open>CLOSED\<close>, so the error event that the handler observes with
  \<^verbatim>\<open>readyState\<close> \<^verbatim>\<open>CLOSED\<close> is the last event of its source, and \<^verbatim>\<open>close()\<close> silences a
  source; a timeout runs only while it is pending; the subscriber may call the cleanup
  function at any time. \<open>live\<close> says whether the source that the client holds can still
  fire: the callback of the timeout closes the old source, and \<^verbatim>\<open>connect\<close> gives a new
  one unless the client was cleaned up or the constructor throws; \<^verbatim>\<open>cleanup\<close> closes the
  source and sets the variable to \<^verbatim>\<open>null\<close>.
\<close>

fun deliverable :: "sse_event \<Rightarrow> bool \<Rightarrow> sse_state \<Rightarrow> bool" where
  "deliverable (TimerFired h) live s = (h \<in> set (pendingTimers s))"
| "deliverable Unsubscribe live s = True"
| "deliverable e live s = live"

fun liveAfter :: "sse_event \<Rightarrow> bool \<Rightarrow> sse_state \<Rightarrow> bool" where
  "liveAfter (TimerFired h) live s =
     (if h \<in> set (pendingTimers s) then \<not> isManuallyCloseD s \<and> \<not> ctorThrows s else live)"
| "liveAfter (ErrorEvent closed reenter) live s =
     (live \<and> \<not> closed \<and> eventSource (sse_step (ErrorEvent closed reenter) s))"
| "liveAfter e live s = (live \<and> eventSource (sse_step e s))"

fun browserRun :: "sse_event list \<Rightarrow> bool \<Rightarrow> sse_state \<Rightarrow> bool" where
  "browserRun [] live s = True"
| "browserRun (e # es) live s =
     (deliverable e live s \<and> browserRun es (liveAfter e live s) (sse_step e s))"

fun liveOf :: "sse_event list \<Rightarrow> bool \<Rightarrow> sse_state \<Rightarrow> bool" where
  "liveOf [] live s = live"
| "liveOf (e # es) live s = liveOf es (liveAfter e live s) (sse_step e s)"

section \<open>Completion arbiter (App.tsx, handleClassifyDocument)\<close>

text \<open>
  One call of \<^verbatim>\<open>handleClassifyDocument(docId)\<close>, lines 83-211 of \<^verbatim>\<open>App.tsx\<close>. Its local
  variables \<^verbatim>\<open>isCompleted\<close>, \<^verbatim>\<open>completionTimer\<close> and \<^verbatim>\<open>cleanupTimer\<close>, the registry it
  calls, the subscription whose cleanup function is \<^verbatim>\<open>unsubscribe\<close>, and the membership
  of \<^verbatim>\<open>docId\<close> in \<^verbatim>\<open>classifyingDocs\<close> are the state; \<open>requestPending\<close> says that the
  promise of \<^verbatim>\<open>classifyApi.classifyDocument\<close> is not settled yet. The result list, the
  uploaded-documents list and the alert of the failure path are display state and left
  out. A timer variable is \<^verbatim>\<open>null\<close> (\<open>NoTimer\<close>) or holds a handle whose timeout is
  waiting, has run, or was cancelled.
\<close>

datatype timer = NoTimer | Waiting | Ran | Cancelled

record arbiter_state =
  isCompleted :: bool
  completionTimer :: timer
  cleanupTimer :: timer
  requestPending :: bool
  classifying :: bool
  registry :: progress_state
  subscription :: sse_state

text \<open>\<^verbatim>\<open>if (t) clearTimeout(t)\<close>: nothing for \<^verbatim>\<open>null\<close>, nothing for a timeout that is over.\<close>

definition clearTimeout :: "timer \<Rightarrow> timer" where
  "clearTimeout t = (if t = Waiting then Cancelled else t)"

definition unsubscribe :: "arbiter_state \<Rightarrow> arbiter_state" where
  "unsubscribe s = s\<lparr>subscription := cleanup (subscription s)\<rparr>"

text \<open>The progress callback, lines 103-105.\<close>

definition onProgressCb ::
  "string \<Rightarrow> string \<Rightarrow> int \<Rightarrow> string \<Rightarrow> int \<Rightarrow> arbiter_state \<Rightarrow> arbiter_state" where
  "onProgressCb docId msg idNow rnd now s =
     s\<lparr>registry := addProgress docId msg Info idNow rnd now (registry s)\<rparr>"

text \<open>The completion callback of the stream, lines 107-124.\<close>

definition onCompleteCb :: "string \<Rightarrow> int \<Rightarrow> arbiter_state \<Rightarrow> arbiter_state" where
  "onCompleteCb docId now s =
     (if \<not> isCompleted s then
        s\<lparr>isCompleted := True,
          registry := completeOperation docId now (registry s),
          completionTimer := clearTimeout (completionTimer s),
          cleanupTimer := clearTimeout (cleanupTimer s),
          classifying := False\<rparr>
      else s)"

text \<open>
  The error callback of the stream, lines 126-143; \<^verbatim>\<open>error || 'Connection error'\<close> takes
  the default for \<^verbatim>\<open>undefined\<close> and for the empty string.
\<close>

definition orConnectionError :: "string option \<Rightarrow> string" where
  "orConnectionError err =
     (case err of None \<Rightarrow> ''Connection error''
      | Some e \<Rightarrow> (if e = [] then ''Connection error'' else e))"

definition onErrorCb :: "string \<Rightarrow> string option \<Rightarrow> int \<Rightarrow> arbiter_state \<Rightarrow> arbiter_state" where
  "onErrorCb docId err now s =
     (if \<not> isCompleted s then
        (let s1 = s\<lparr>isCompleted := True,
                    registry := errorOperation docId (orConnectionError err) now (registry s)\<rparr>;
             s2 = unsubscribe s1
         in s2\<lparr>completionTimer := clearTimeout (completionTimer s2),
               cleanupTimer := clearTimeout (cleanupTimer s2),
               classifying := False\<rparr>)
      else s)"

text \<open>The request resolved, lines 150-189: both timeouts are set.\<close>

definition requestResolved :: "arbiter_state \<Rightarrow> arbiter_state" where
  "requestResolved s =
     s\<lparr>requestPending := False, completionTimer := Waiting, cleanupTimer := Waiting\<rparr>"

text \<open>The request rejected, lines 191-210.\<close>

definition requestRejected :: "string \<Rightarrow> string \<Rightarrow> int \<Rightarrow> arbiter_state \<Rightarrow> arbiter_state" where
  "requestRejected docId msg now s =
     (let s1 = (if \<not> isCompleted s then
                  s\<lparr>isCompleted := True,
                    registry := errorOperation docId msg now (registry s)\<rparr>
                else s);
          s2 = unsubscribe s1
      in s2\<lparr>requestPending := False,
            completionTimer := clearTimeout (completionTimer s2),
            cleanupTimer := clearTimeout (cleanupTimer s2),
            classifying := False\<rparr>)"

text \<open>The callback of the 2-second timeout, lines 157-171.\<close>

definition completionTimerFired :: "string \<Rightarrow> int \<Rightarrow> arbiter_state \<Rightarrow> arbiter_state" where
  "completionTimerFired docId now s =
     (let s0 = s\<lparr>completionTimer := Ran\<rparr>
      in if \<not> isCompleted s0 then
           (unsubscribe
              (s0\<lparr>isCompleted := True,
                  registry := completeOperation docId now (registry s0)\<rparr>))
             \<lparr>classifying := False\<rparr>
         else s0)"

text \<open>The callback of the 5-second timeout, lines 174-189.\<close>

definition cleanupTimerFired :: "string \<Rightarrow> int \<Rightarrow> arbiter_state \<Rightarrow> arbiter_state" where
  "cleanupTimerFired docId now s =
     (let s0 = s\<lparr>cleanupTimer := Ran\<rparr>;
          s1 = (if \<not> isCompleted s0 then
                  s0\<lparr>isCompleted := True,
                     registry := completeOperation docId now (registry s0)\<rparr>
                else s0);
          s2 = unsubscribe s1
      in s2\<lparr>completionTimer := clearTimeout (completionTimer s2), classifying := False\<rparr>)"

text \<open>
  The start of the call, lines 83-144: the operation is started and the stream is
  subscribed to. When \<^verbatim>\<open>new EventSource\<close> throws, the client calls the error callback
  before \<^verbatim>\<open>subscribeToProgress\<close> has returned: the callback settles the job, and its call
  of \<^verbatim>\<open>unsubscribe\<close>, a constant not yet initialised, throws and ends
  \<^verbatim>\<open>handleClassifyDocument\<close> before the request is sent. \<open>now\<close> is the time of
  \<^verbatim>\<open>startOperation\<close> and \<open>errNow\<close> that of the error callback.
\<close>

definition beginClassify ::
  "string \<Rightarrow> string option \<Rightarrow> int \<Rightarrow> int \<Rightarrow> bool \<Rightarrow> progress_state \<Rightarrow> arbiter_state"
  where
  "beginClassify docId fname now errNow throws reg =
     (if throws then
        \<lparr>isCompleted = True, completionTimer = NoTimer, cleanupTimer = NoTimer,
         requestPending = False, classifying = True,
         registry = errorOperation docId ''Failed to establish connection'' errNow
                      (startOperation docId fname now reg),
         subscription = subscribeToProgress True\<rparr>
      else
        \<lparr>isCompleted = False, completionTimer = NoTimer, cleanupTimer = NoTimer,
         requestPending = True, classifying = True,
         registry = startOperation docId fname now reg,
         subscription = subscribeToProgress False\<rparr>)"

text \<open>
  What can happen to the call afterwards. The stream's callbacks may come at any time
  and in any number; the request settles once; a timeout runs only while it is waiting.
  The transport events of the stream act on the subscription through the client's own
  handlers (the section above) and reach this function only as the three callbacks.
\<close>

datatype arb_event =
    StreamProgress string int string int
  | StreamComplete int
  | StreamError "string option" int
  | RequestSuccess
  | RequestFailure string int
  | GraceTimerFires int
  | SafetyTimerFires int

fun arb_step :: "string \<Rightarrow> arb_event \<Rightarrow> arbiter_state \<Rightarrow> arbiter_state" where
  "arb_step docId (StreamProgress msg idNow rnd now) s = onProgressCb docId msg idNow rnd now s"
| "arb_step docId (StreamComplete now) s = onCompleteCb docId now s"
| "arb_step docId (StreamError err now) s = onErrorCb docId err now s"
| "arb_step docId RequestSuccess s = (if requestPending s then requestResolved s else s)"
| "arb_step docId (RequestFailure msg now) s =
     (if requestPending s then requestRejected docId msg now s else s)"
| "arb_step docId (GraceTimerFires now) s =
     (if completionTimer s = Waiting then completionTimerFired docId now s else s)"
| "arb_step docId (SafetyTimerFires now) s =
     (if cleanupTimer s = Waiting then cleanupTimerFired docId now s else s)"

definition arb_run :: "string \<Rightarrow> arb_event list \<Rightarrow> arbiter_state \<Rightarrow> arbiter_state" where
  "arb_run docId evs s = foldl (\<lambda>st e. arb_step docId e st) s evs"

fun isProgress :: "arb_event \<Rightarrow> bool" where
  "isProgress (StreamProgress msg idNow rnd now) = True"
| "isProgress e = False"

definition timersWaiting :: "arbiter_state \<Rightarrow> bool" where
  "timersWaiting s = (completionTimer s = Waiting \<or> cleanupTimer s = Waiting)"

section \<open>Predicates and sample inputs of the properties\<close>

subsection \<open>Registry\<close>

text \<open>
  An entry put in front of a history that is within the cap: the last entry goes when
  the history is full.
\<close>

definition inserted :: "ProgressOperation \<Rightarrow> ProgressOperation list \<Rightarrow> ProgressOperation list" where
  "inserted e hs = (if length hs < MAX_HISTORY then e # hs else e # butlast hs)"

text \<open>A registry whose history is full.\<close>

definition fullHistory :: progress_state where
  "fullHistory =
     \<lparr>activeOperations = [],
      history = map (\<lambda>i. \<lparr>documentId = ''old'', filename = None, status = Completed,
                           steps = [], startedAt = int i, completedAt = Some (int i),
                           error = None\<rparr>) [0..<50],
      localStorage = (\<lambda>k. None)\<rparr>"

text \<open>The test of the stale check, and the entries it makes from a restored map.\<close>

definition isStale :: "int \<Rightarrow> ProgressOperation \<Rightarrow> bool" where
  "isStale now opn = (now - startedAt opn > fiveMinutes)"

definition staleOpsOf :: "int \<Rightarrow> ProgressOperation js_map \<Rightarrow> ProgressOperation list" where
  "staleOpsOf now m = map (interrupted now) (filter (isStale now) (Map_values m))"

text \<open>A store whose active snapshot holds 51 operations, started at 0, 1, ..., 50.\<close>

definition crowded :: storage where
  "crowded =
     (\<lambda>k. if k = ACTIVE_STORAGE_KEY
          then Some (map (\<lambda>i. \<lparr>documentId = digits i, filename = None, status = Active,
                                steps = [], startedAt = int i, completedAt = None,
                                error = None\<rparr>) [0..<51])
          else None)"

text \<open>
  A store with two active operations: at time 400000 the first is older than five
  minutes and the second is exactly five minutes old.
\<close>

definition abandonedOp :: ProgressOperation where
  "abandonedOp = \<lparr>documentId = ''doc-a'', filename = None, status = Active, steps = [],
                   startedAt = 0, completedAt = None, error = None\<rparr>"

definition recentOp :: ProgressOperation where
  "recentOp = \<lparr>documentId = ''doc-b'', filename = None, status = Active, steps = [],
                startedAt = 100000, completedAt = None, error = None\<rparr>"

definition refreshed :: storage where
  "refreshed =
     (\<lambda>k. if k = ACTIVE_STORAGE_KEY then Some [abandonedOp, recentOp] else None)"

subsection \<open>Completion arbiter\<close>

text \<open>
  Once the call has settled its job, the registry holds no active entry for the id; a
  waiting 2-second timer has the 5-second timer waiting beside it, and no timer is set
  while the request is pending.
\<close>

definition settledInv :: "string \<Rightarrow> arbiter_state \<Rightarrow> bool" where
  "settledInv docId s = (isCompleted s \<longrightarrow> getOperation (registry s) docId = None)"

definition timerInv :: "arbiter_state \<Rightarrow> bool" where
  "timerInv s =
     ((completionTimer s = Waiting \<longrightarrow> cleanupTimer s = Waiting)
      \<and> (requestPending s \<longrightarrow> completionTimer s = NoTimer \<and> cleanupTimer s = NoTimer))"

text \<open>The calls for two documents, started on the empty registry.\<close>

definition job2 :: arbiter_state where
  "job2 = beginClassify ''doc-2'' None 1 1 False emptyRegistry"

definition job3 :: arbiter_state where
  "job3 = beginClassify ''doc-3'' None 0 0 False emptyRegistry"

text \<open>The steps that a list of progress callbacks appends to the job's operation.\<close>

fun progressStep :: "string \<Rightarrow> arb_event \<Rightarrow> ProgressStep list" where
  "progressStep d (StreamProgress msg idNow rnd now) =
     [\<lparr>step_id = d @ ''-'' @ show_int idNow @ ''-'' @ rnd, message = msg, timestamp = now,
       step_type = Some Info\<rparr>]"
| "progressStep d e = []"

definition stepsOf :: "string \<Rightarrow> arb_event list \<Rightarrow> ProgressStep list" where
  "stepsOf d ps = concat (map (progressStep d) ps)"

definition startedOp :: "string \<Rightarrow> string option \<Rightarrow> int \<Rightarrow> ProgressStep list \<Rightarrow> ProgressOperation"
  where
  "startedOp d f t0 stps =
     \<lparr>documentId = d, filename = f, status = Active, steps = stps, startedAt = t0,
      completedAt = None, error = None\<rparr>"

text \<open>
  The run of the scenario in which the request resolves and the stream delivers
  progress only: up to the 2-second timer, and up to the 5-second timer.
\<close>

definition untilFallback :: "arb_event list \<Rightarrow> arb_event list \<Rightarrow> int \<Rightarrow> arb_event list" where
  "untilFallback ps1 ps2 t1 = ps1 @ [RequestSuccess] @ ps2 @ [GraceTimerFires t1]"

definition wholeRun ::
  "arb_event list \<Rightarrow> arb_event list \<Rightarrow> int \<Rightarrow> arb_event list \<Rightarrow> int \<Rightarrow> arb_event list" where
  "wholeRun ps1 ps2 t1 ps3 t2 = untilFallback ps1 ps2 t1 @ ps3 @ [SafetyTimerFires t2]"

text \<open>Two progress callbacks.\<close>

definition extracting :: "arb_event list" where
  "extracting = [StreamProgress ''Extracting'' 100 ''0.1'' 100]"

definition classifyingMsg :: "arb_event list" where
  "classifyingMsg = [StreamProgress ''Classifying'' 900 ''0.2'' 900]"

subsection \<open>Event-stream client\<close>

text \<open>
  A call that is neither a reconnection step nor the connection-lost callback; what a
  log of calls must satisfy once it holds the connection-lost callback; and the invariant
  of the client's state.
\<close>

definition quiet :: "sse_action \<Rightarrow> bool" where
  "quiet a = (\<not> isRetry a \<and> a \<noteq> CallError connectionLost)"

definition logInv :: "sse_action list \<Rightarrow> bool" where
  "logInv L =
     (CallError connectionLost \<in> set L \<longrightarrow>
        count_list L (CallError connectionLost) = 1
        \<and> maxReconnectAttempts
             \<le> length (filter isTimer (takeWhile (\<lambda>a. a \<noteq> CallError connectionLost) L))
        \<and> filter isRetry (dropWhile (\<lambda>a. a \<noteq> CallError connectionLost) L) = [])"

definition sseInv :: "sse_state \<Rightarrow> bool" where
  "sseInv s =
     ((isManuallyCloseD s \<longrightarrow> \<not> eventSource s \<and> reconnectTimer s = None)
      \<and> reconnectAttempts s \<le> maxReconnectAttempts
      \<and> reconnectAttempts s < nextHandle s
      \<and> filter isTimer (actions s) = map (\<lambda>h. SetTimeout h reconnectDelay) [1..<nextHandle s]
      \<and> (CallError connectionLost \<in> set (actions s) \<longrightarrow> isManuallyCloseD s)
      \<and> logInv (actions s))"

text \<open>
  A step of the client that makes only quiet calls, keeps the timeouts or ends in a
  cleaned-up client that holds no more of them; that a client which was not cleaned up
  holds a source, unless the constructor throws; and what the browser's delivery adds
  to the invariant: a live source has no timeout pending, at most one timeout is
  pending and only on a counter that is not 0, and every timeout scheduled is pending,
  was cancelled or has opened a connection.
\<close>

definition quietStep :: "sse_state \<Rightarrow> sse_state \<Rightarrow> bool" where
  "quietStep s s' =
     ((\<exists>ext. actions s' = actions s @ ext \<and> list_all quiet ext)
      \<and> ctorThrows s' = ctorThrows s
      \<and> reconnectAttempts s' = reconnectAttempts s
      \<and> (isManuallyCloseD s \<longrightarrow> isManuallyCloseD s')
      \<and> (pendingTimers s' = pendingTimers s
           \<or> isManuallyCloseD s' \<and> length (pendingTimers s') \<le> length (pendingTimers s)))"

definition srcInv :: "sse_state \<Rightarrow> bool" where
  "srcInv s = (\<not> isManuallyCloseD s \<and> \<not> ctorThrows s \<longrightarrow> eventSource s)"

definition wInv :: "bool \<Rightarrow> sse_state \<Rightarrow> bool" where
  "wInv live s =
     ((live \<longrightarrow> eventSource s \<and> \<not> isManuallyCloseD s \<and> \<not> ctorThrows s \<and> pendingTimers s = [])
      \<and> length (pendingTimers s) \<le> 1
      \<and> length (pendingTimers s) \<le> reconnectAttempts s
      \<and> length (filter isConnect (actions s)) + length (pendingTimers s)
           \<le> Suc (length (filter isTimer (actions s)))
      \<and> (\<not> isManuallyCloseD s \<and> \<not> ctorThrows s \<longrightarrow>
           length (filter isConnect (actions s)) + length (pendingTimers s)
             = Suc (length (filter isTimer (actions s))))
      \<and> (CallError connectionLost \<in> set (actions s) \<longrightarrow>
           length (filter isConnect (beforeLost s)) = Suc (length (filter isTimer (beforeLost s)))))"

text \<open>
  A channel that is closed by the server after every connection attempt, up to the last
  retry; a channel that is closed, reopened with success and then closed after every
  attempt; and the first run continued past the loss of the connection.
\<close>

definition droppedThrice :: "sse_event list" where
  "droppedThrice =
     [ErrorEvent True False, TimerFired 1, ErrorEvent True False, TimerFired 2,
      ErrorEvent True False, TimerFired 3]"

definition reopenedOnce :: "sse_event list" where
  "reopenedOnce = [ErrorEvent True False, TimerFired 1, Opened]"

definition droppedAgain :: "sse_event list" where
  "droppedAgain =
     [ErrorEvent True False, TimerFired 2, ErrorEvent True False, TimerFired 3,
      ErrorEvent True False, TimerFired 4]"

definition afterTheLoss :: "sse_event list" where
  "afterTheLoss =
     droppedThrice @ [ErrorEvent True False, ErrorEvent True False, TimerFired 3, Opened,
                      ErrorEvent True False]"

text \<open>
  The same channels up to the close that loses the connection; two closes delivered
  before the subscriber cleans up, which leaves the first timeout pending; and a channel
  on which every retry opens with success and is closed again, with \<open>n\<close> retries and
  with four.
\<close>

definition lostAtLast :: "sse_event list" where
  "lostAtLast = droppedThrice @ [ErrorEvent True False]"

definition lostAgain :: "sse_event list" where
  "lostAgain = droppedAgain @ [ErrorEvent True False]"

definition closedTwiceThenCleaned :: "sse_event list" where
  "closedTwiceThenCleaned = [ErrorEvent True False, ErrorEvent True False, Unsubscribe]"

fun flap :: "nat \<Rightarrow> sse_event list" where
  "flap 0 = []"
| "flap (Suc n) = flap n @ [ErrorEvent True False, TimerFired (Suc n), Opened]"

definition flapping :: "sse_event list" where
  "flapping =
     [ErrorEvent True False, TimerFired 1, Opened, ErrorEvent True False, TimerFired 2, Opened,
      ErrorEvent True False, TimerFired 3, Opened, ErrorEvent True False, TimerFired 4, Opened]"

text \<open>Scenario A of the specification.\<close>

definition scenarioA :: "registry_op list" where
  "scenarioA =
     [Start ''doc-1'' None 1, AddStep ''doc-1'' ''Extracting'' Info 2 ''0.25'' 2,
      AddStep ''doc-1'' ''Classifying'' Info 3 ''0.75'' 3, Complete ''doc-1'' 4]"

section \<open>Properties of the registry\<close>

subsection \<open>Map lemmas\<close>

lemma Map_get_delete: "Map_get (Map_delete k m) k' = (if k' = k then None else Map_get m k')"
  by (induction m) auto

lemma Map_get_set: "Map_get (Map_set k v m) k' = (if k' = k then Some v else Map_get m k')"
  by (induction m) auto

lemma Map_delete_absent: "Map_get m k = None \<Longrightarrow> Map_delete k m = m"
  by (induction m) (auto split: if_splits)

subsection \<open>Terminal calls\<close>

lemma completeOperation_absent:
  "Map_get (activeOperations s) docId = None \<Longrightarrow> completeOperation docId now s = s"
  by (simp add: completeOperation_def)

lemma errorOperation_absent:
  "Map_get (activeOperations s) docId = None \<Longrightarrow> errorOperation docId err now s = s"
  by (simp add: errorOperation_def)

lemma completeOperation_removes:
  "Map_get (activeOperations (completeOperation docId now s)) docId = None"
  by (cases "Map_get (activeOperations s) docId")
     (simp_all add: completeOperation_def Let_def Map_get_delete)

lemma errorOperation_removes:
  "Map_get (activeOperations (errorOperation docId err now s)) docId = None"
  by (cases "Map_get (activeOperations s) docId")
     (simp_all add: errorOperation_def Let_def Map_get_delete)

lemma entriesFor_take: "entriesFor d t (take n hs) \<le> entriesFor d t hs"
proof -
  have "length (filter P (take n hs)) \<le> length (filter P hs)" for P :: "ProgressOperation \<Rightarrow> bool"
  proof -
    have "hs = take n hs @ drop n hs" by simp
    then have "filter P hs = filter P (take n hs) @ filter P (drop n hs)"
      by (metis filter_append)
    then show ?thesis by simp
  qed
  then show ?thesis by (simp add: entriesFor_def)
qed

lemma isDuplicate_entriesFor: "isDuplicate d t hs \<longleftrightarrow> entriesFor d t hs > 0"
  by (induction hs) (auto simp: isDuplicate_def entriesFor_def)

lemma entriesFor_addToHistory:
  assumes "startedAt e = t0"
  shows "entriesFor d t (addToHistory d t0 e hs) \<le> max 1 (entriesFor d t hs)"
proof (cases "isDuplicate d t0 hs")
  case True
  then show ?thesis by (simp add: addToHistory_def)
next
  case False
  then have zero: "entriesFor d t0 hs = 0" by (simp add: isDuplicate_entriesFor)
  have "entriesFor d t (take MAX_HISTORY (e # hs)) \<le> entriesFor d t (e # hs)"
    by (rule entriesFor_take)
  also have "\<dots> \<le> max 1 (entriesFor d t hs)"
    using zero assms by (auto simp: entriesFor_def)
  finally show ?thesis using False by (simp add: addToHistory_def)
qed

lemma entriesFor_completeOperation:
  "entriesFor d t (history (completeOperation d now s)) \<le> max 1 (entriesFor d t (history s))"
proof (cases "Map_get (activeOperations s) d")
  case None
  then show ?thesis by (simp add: completeOperation_def)
next
  case (Some a)
  show ?thesis
    using Some entriesFor_addToHistory
            [of "a\<lparr>status := Completed, completedAt := Some now\<rparr>" "startedAt a" d t "history s"]
    by (simp add: completeOperation_def Let_def)
qed

lemma entriesFor_errorOperation:
  "entriesFor d t (history (errorOperation d err now s)) \<le> max 1 (entriesFor d t (history s))"
proof (cases "Map_get (activeOperations s) d")
  case None
  then show ?thesis by (simp add: errorOperation_def)
next
  case (Some a)
  show ?thesis
    using Some entriesFor_addToHistory
            [of "a\<lparr>status := Error, completedAt := Some now, error := Some err\<rparr>"
                "startedAt a" d t "history s"]
    by (simp add: errorOperation_def Let_def)
qed

text \<open>
  C2. \<^verbatim>\<open>completeOperation\<close> and \<^verbatim>\<open>errorOperation\<close> are idempotent: after a first
  terminal call for an id, a second terminal call for the same id (of either kind, with
  any timestamp and message) returns the state unchanged: the same active map, the same
  history, no further entry. Two terminal calls for an id leave at most one history
  entry for each pair of that id and a start time, unless history held more before.
\<close>

theorem terminal_calls_idempotent:
  "completeOperation docId t2 (completeOperation docId t1 s) = completeOperation docId t1 s
   \<and> errorOperation docId e2 t2 (errorOperation docId e1 t1 s) = errorOperation docId e1 t1 s
   \<and> errorOperation docId e2 t2 (completeOperation docId t1 s) = completeOperation docId t1 s
   \<and> completeOperation docId t2 (errorOperation docId e1 t1 s) = errorOperation docId e1 t1 s
   \<and> entriesFor docId started
        (history (completeOperation docId t2 (completeOperation docId t1 s)))
        \<le> max 1 (entriesFor docId started (history s))
   \<and> entriesFor docId started
        (history (errorOperation docId e2 t2 (errorOperation docId e1 t1 s)))
        \<le> max 1 (entriesFor docId started (history s))
   \<and> entriesFor docId started
        (history (errorOperation docId e2 t2 (completeOperation docId t1 s)))
        \<le> max 1 (entriesFor docId started (history s))
   \<and> entriesFor docId started
        (history (completeOperation docId t2 (errorOperation docId e1 t1 s)))
        \<le> max 1 (entriesFor docId started (history s))"
proof -
  have cc: "completeOperation docId t2 (completeOperation docId t1 s) = completeOperation docId t1 s"
    by (rule completeOperation_absent) (rule completeOperation_removes)
  have ee: "errorOperation docId e2 t2 (errorOperation docId e1 t1 s) = errorOperation docId e1 t1 s"
    by (rule errorOperation_absent) (rule errorOperation_removes)
  have ec: "errorOperation docId e2 t2 (completeOperation docId t1 s) = completeOperation docId t1 s"
    by (rule errorOperation_absent) (rule completeOperation_removes)
  have ce: "completeOperation docId t2 (errorOperation docId e1 t1 s) = errorOperation docId e1 t1 s"
    by (rule completeOperation_absent) (rule errorOperation_removes)
  show ?thesis
    unfolding cc ee ec ce
    using entriesFor_completeOperation [of docId started t1 s]
          entriesFor_errorOperation [of docId started e1 t1 s]
    by simp
qed

text \<open>
  C7. For an id with no active entry, \<^verbatim>\<open>addProgress\<close> returns the state it was given:
  no entry is created for the id, and the active map, the history (with the steps of its
  entries) and the store are the same. The function has no failing branch.
\<close>

theorem addProgress_without_active_entry:
  assumes "getOperation s docId = None"
  shows "addProgress docId msg ty idNow rnd now s = s
         \<and> getOperation (addProgress docId msg ty idNow rnd now s) docId = None
         \<and> activeOperations (addProgress docId msg ty idNow rnd now s) = activeOperations s
         \<and> history (addProgress docId msg ty idNow rnd now s) = history s"
  using assms by (simp add: addProgress_def getOperation_def)

theorem addProgress_without_active_entry_witness:
  "getOperation (completeOperation ''doc-4'' 2 (startOperation ''doc-4'' None 1 emptyRegistry))
     ''doc-4'' = None
   \<and> map documentId
         (history (completeOperation ''doc-4'' 2 (startOperation ''doc-4'' None 1 emptyRegistry)))
       = [''doc-4'']
   \<and> addProgress ''doc-4'' ''late message'' Info 3 ''0.5'' 3
         (completeOperation ''doc-4'' 2 (startOperation ''doc-4'' None 1 emptyRegistry))
       = completeOperation ''doc-4'' 2 (startOperation ''doc-4'' None 1 emptyRegistry)"
proof -
  let ?s = "completeOperation ''doc-4'' 2 (startOperation ''doc-4'' None 1 emptyRegistry)"
  have h: "getOperation ?s ''doc-4'' = None"
    by (simp add: getOperation_def completeOperation_removes)
  have e: "map documentId (history ?s) = [''doc-4'']"
    by (simp add: completeOperation_def startOperation_def emptyRegistry_def initialState_def
          loadActive_def loadHistory_def getItem_def addToHistory_def isDuplicate_def
          MAX_HISTORY_def Let_def)
  from addProgress_without_active_entry [OF h, of "''late message''" Info 3 "''0.5''" 3] h e
  show ?thesis by simp
qed

text \<open>
  C10. \<^verbatim>\<open>clearHistory\<close> empties the history, removes the history snapshot and the
  active-operations snapshot from the store, and leaves the active map as it was: every
  lookup with \<^verbatim>\<open>getOperation\<close> gives what it gave before the call.
\<close>

theorem clearHistory_frame:
  "history (clearHistory s) = []
   \<and> getItem (localStorage (clearHistory s)) STORAGE_KEY = None
   \<and> getItem (localStorage (clearHistory s)) ACTIVE_STORAGE_KEY = None
   \<and> activeOperations (clearHistory s) = activeOperations s
   \<and> getOperation (clearHistory s) docId = getOperation s docId"
  by (simp add: clearHistory_def getItem_def removeItem_def getOperation_def)

subsection \<open>The invariant of the registry\<close>

lemma startKeys_snoc:
  "startKeys (ops @ [x]) = startKeys ops @ startKeys [x]"
  by (induction ops rule: startKeys.induct) auto

lemma Map_get_in: "Map_get m k = Some v \<Longrightarrow> (k, v) \<in> set m"
  by (induction m) (auto split: if_splits)

lemma keysOk_get: "keysOk m \<Longrightarrow> Map_get m k = Some v \<Longrightarrow> documentId v = k"
  using Map_get_in [of m k v] by (auto simp: keysOk_def list_all_iff)

lemma keysOk_set: "keysOk m \<Longrightarrow> documentId v = k \<Longrightarrow> keysOk (Map_set k v m)"
  by (induction m) (auto simp: keysOk_def)

lemma keysOk_delete: "keysOk m \<Longrightarrow> keysOk (Map_delete k m)"
  by (induction m) (auto simp: keysOk_def)

lemma isDuplicate_keys: "isDuplicate d t hs \<longleftrightarrow> (d, t) \<in> set (map entryKey hs)"
  by (induction hs) (auto simp: isDuplicate_def entryKey_def)

lemma addToHistory_distinct:
  assumes "distinct (map entryKey hs)" "entryKey e = (d, t)"
  shows "distinct (map entryKey (addToHistory d t e hs))"
proof (cases "isDuplicate d t hs")
  case True
  then show ?thesis using assms by (simp add: addToHistory_def)
next
  case False
  then have "distinct (map entryKey (e # hs))"
    using assms by (simp add: isDuplicate_keys)
  then have "distinct (take MAX_HISTORY (map entryKey (e # hs)))"
    by (rule distinct_take)
  then have "distinct (map entryKey (take MAX_HISTORY (e # hs)))"
    by (simp only: take_map)
  then show ?thesis using False by (simp add: addToHistory_def)
qed

lemma addToHistory_keys:
  "set (map entryKey (addToHistory d t e hs)) \<subseteq> insert (entryKey e) (set (map entryKey hs))"
proof -
  have "set (take MAX_HISTORY (e # hs)) \<subseteq> set (e # hs)" by (rule set_take_subset)
  then show ?thesis by (auto simp: addToHistory_def)
qed

lemma registryInv_empty: "registryInv [] emptyRegistry \<and> activeFresh emptyRegistry"
  by (simp add: registryInv_def activeFresh_def emptyRegistry_def initialState_def loadActive_def
        loadHistory_def getItem_def keysOk_def)

lemma terminal_inv:
  assumes inv: "registryInv ops s"
    and get: "Map_get (activeOperations s) d = Some v"
    and fin: "documentId e = documentId v" "startedAt e = startedAt v"
    and s': "s' = s\<lparr>history := addToHistory d (startedAt v) e (history s),
                    activeOperations := Map_delete d (activeOperations s)\<rparr>"
    and ops': "set (startKeys ops) \<subseteq> set (startKeys ops')"
  shows "registryInv ops' s'"
proof -
  have dv: "documentId v = d" using inv get by (auto simp: registryInv_def dest: keysOk_get)
  then have key: "entryKey e = (d, startedAt v)" using fin by (simp add: entryKey_def)
  have "(d, startedAt v) \<in> set (startKeys ops)" using inv get by (auto simp: registryInv_def)
  then have sub: "set (map entryKey (addToHistory d (startedAt v) e (history s))) \<subseteq> set (startKeys ops)"
    using addToHistory_keys [of d "startedAt v" e "history s"] inv key
    by (auto simp: registryInv_def)
  show ?thesis
    using inv sub ops' addToHistory_distinct [OF _ key, of "history s"]
    by (auto simp: registryInv_def s' keysOk_delete Map_get_delete split: if_splits)
qed

lemma terminal_fresh:
  assumes inv: "registryInv ops s" and fresh: "activeFresh s"
    and get: "Map_get (activeOperations s) d = Some v"
    and fin: "documentId e = documentId v" "startedAt e = startedAt v"
    and s': "s' = s\<lparr>history := addToHistory d (startedAt v) e (history s),
                    activeOperations := Map_delete d (activeOperations s)\<rparr>"
  shows "activeFresh s'"
proof -
  have dv: "documentId v = d" using inv get by (auto simp: registryInv_def dest: keysOk_get)
  then have key: "entryKey e = (d, startedAt v)" using fin by (simp add: entryKey_def)
  show ?thesis
    unfolding activeFresh_def
  proof (intro allI impI)
    fix k w assume a: "Map_get (activeOperations s') k = Some w"
    then have kd: "k \<noteq> d" and w: "Map_get (activeOperations s) k = Some w"
      by (auto simp: s' Map_get_delete split: if_splits)
    have old: "(k, startedAt w) \<notin> set (map entryKey (history s))"
      using fresh w by (simp add: activeFresh_def isDuplicate_keys)
    have "(k, startedAt w) \<noteq> entryKey e" using kd key by simp
    then have "(k, startedAt w) \<notin> set (map entryKey (addToHistory d (startedAt v) e (history s)))"
      using old addToHistory_keys [of d "startedAt v" e "history s"] by auto
    then show "\<not> isDuplicate k (startedAt w) (history s')"
      by (simp add: isDuplicate_keys s')
  qed
qed

lemma apply_op_inv:
  assumes "registryInv ops s"
  shows "registryInv (ops @ [x]) (apply_op x s)"
proof (cases x)
  case (Start d f n)
  then show ?thesis using assms
    by (auto simp: registryInv_def startOperation_def startKeys_snoc keysOk_set Map_get_set
             split: if_splits)
next
  case (AddStep d m ty i r n)
  show ?thesis
  proof (cases "Map_get (activeOperations s) d")
    case None
    then show ?thesis using assms AddStep
      by (auto simp: registryInv_def addProgress_def startKeys_snoc)
  next
    case (Some v)
    then have "documentId v = d" using assms by (auto simp: registryInv_def dest: keysOk_get)
    then show ?thesis using assms AddStep Some
      by (auto simp: registryInv_def addProgress_def startKeys_snoc keysOk_set Map_get_set
               split: if_splits)
  qed
next
  case (Complete d n)
  show ?thesis
  proof (cases "Map_get (activeOperations s) d")
    case None
    then show ?thesis using assms Complete
      by (auto simp: registryInv_def completeOperation_def startKeys_snoc)
  next
    case (Some v)
    show ?thesis
      unfolding Complete
      by (rule terminal_inv [OF assms Some, where e = "v\<lparr>status := Completed, completedAt := Some n\<rparr>"])
         (simp_all add: completeOperation_def Some startKeys_snoc)
  qed
next
  case (Fail d err n)
  show ?thesis
  proof (cases "Map_get (activeOperations s) d")
    case None
    then show ?thesis using assms Fail
      by (auto simp: registryInv_def errorOperation_def startKeys_snoc)
  next
    case (Some v)
    show ?thesis
      unfolding Fail
      by (rule terminal_inv [OF assms Some,
            where e = "v\<lparr>status := Error, completedAt := Some n, error := Some err\<rparr>"])
         (simp_all add: errorOperation_def Some startKeys_snoc)
  qed
next
  case (Remove d)
  then show ?thesis using assms
    by (auto simp: registryInv_def removeOperation_def startKeys_snoc keysOk_delete Map_get_delete
             split: if_splits)
next
  case ClearHistory
  then show ?thesis using assms
    by (auto simp: registryInv_def clearHistory_def startKeys_snoc)
qed


lemma apply_op_fresh:
  assumes inv: "registryInv ops s" and fresh: "activeFresh s"
    and starts: "freshStarts (ops @ [x])"
  shows "activeFresh (apply_op x s)"
proof (cases x)
  case (Start d f n)
  have "(d, n) \<notin> set (startKeys ops)"
    using starts Start by (simp add: freshStarts_def startKeys_snoc)
  then have "\<not> isDuplicate d n (history s)"
    using inv by (auto simp: registryInv_def isDuplicate_keys)
  then show ?thesis using fresh Start
    by (auto simp: activeFresh_def startOperation_def Map_get_set split: if_splits)
next
  case (AddStep d m ty i r n)
  then show ?thesis using fresh
    by (auto simp: activeFresh_def addProgress_def Map_get_set split: option.splits if_splits)
next
  case (Complete d n)
  show ?thesis
  proof (cases "Map_get (activeOperations s) d")
    case None
    then show ?thesis using fresh Complete by (simp add: completeOperation_def)
  next
    case (Some v)
    show ?thesis
      unfolding Complete
      by (rule terminal_fresh [OF inv fresh Some,
            where e = "v\<lparr>status := Completed, completedAt := Some n\<rparr>"])
         (simp_all add: completeOperation_def Some)
  qed
next
  case (Fail d err n)
  show ?thesis
  proof (cases "Map_get (activeOperations s) d")
    case None
    then show ?thesis using fresh Fail by (simp add: errorOperation_def)
  next
    case (Some v)
    show ?thesis
      unfolding Fail
      by (rule terminal_fresh [OF inv fresh Some,
            where e = "v\<lparr>status := Error, completedAt := Some n, error := Some err\<rparr>"])
         (simp_all add: errorOperation_def Some)
  qed
next
  case (Remove d)
  then show ?thesis using fresh
    by (auto simp: activeFresh_def removeOperation_def Map_get_delete split: if_splits)
next
  case ClearHistory
  then show ?thesis
    by (simp add: activeFresh_def clearHistory_def isDuplicate_def)
qed

lemma run_ops_snoc: "run_ops (ops @ [x]) s = apply_op x (run_ops ops s)"
  by (simp add: run_ops_def)

lemma run_ops_inv: "registryInv ops (run_ops ops emptyRegistry)"
proof (induction ops rule: rev_induct)
  case Nil
  then show ?case using registryInv_empty by (simp add: run_ops_def)
next
  case (snoc x ops)
  then show ?case by (simp add: run_ops_snoc apply_op_inv)
qed

lemma run_ops_fresh: "freshStarts ops \<Longrightarrow> activeFresh (run_ops ops emptyRegistry)"
proof (induction ops rule: rev_induct)
  case Nil
  then show ?case using registryInv_empty by (simp add: run_ops_def)
next
  case (snoc x ops)
  from snoc.prems have "freshStarts ops"
    by (simp add: freshStarts_def startKeys_snoc)
  then have "activeFresh (run_ops ops emptyRegistry)" by (rule snoc.IH)
  then show ?case
    using apply_op_fresh [OF run_ops_inv _ snoc.prems] by (simp add: run_ops_snoc)
qed

lemmas registry_eval =
  run_ops_def startOperation_def completeOperation_def errorOperation_def addProgress_def
  removeOperation_def clearHistory_def emptyRegistry_def initialState_def loadActive_def
  loadHistory_def getItem_def addToHistory_def isDuplicate_def MAX_HISTORY_def getOperation_def
  Let_def

text \<open>
  C3, as the code has it. In every state reached from the empty registry by registry
  calls, no two history entries have the same pair of document id and start time; when
  no two \<^verbatim>\<open>startOperation\<close> calls of the sequence gave the same id the same start time,
  no active entry has its pair in history; and right after a terminal call or a removal
  the id is not active. (The id alone may be active and in history at once, and may
  stand in history several times, once per start.)
\<close>

theorem history_pairs_distinct:
  "distinct (map entryKey (history (run_ops ops emptyRegistry)))
   \<and> (freshStarts ops \<longrightarrow>
        (\<forall>k v. getOperation (run_ops ops emptyRegistry) k = Some v \<longrightarrow>
               \<not> isDuplicate k (startedAt v) (history (run_ops ops emptyRegistry))))
   \<and> getOperation (completeOperation docId now (run_ops ops emptyRegistry)) docId = None
   \<and> getOperation (errorOperation docId err now (run_ops ops emptyRegistry)) docId = None
   \<and> getOperation (removeOperation docId (run_ops ops emptyRegistry)) docId = None"
proof -
  have 1: "distinct (map entryKey (history (run_ops ops emptyRegistry)))"
    using run_ops_inv [of ops] by (simp add: registryInv_def)
  have 2: "freshStarts ops \<longrightarrow>
        (\<forall>k v. getOperation (run_ops ops emptyRegistry) k = Some v \<longrightarrow>
               \<not> isDuplicate k (startedAt v) (history (run_ops ops emptyRegistry)))"
    using run_ops_fresh [of ops] by (simp add: activeFresh_def getOperation_def)
  have 3: "getOperation (removeOperation docId (run_ops ops emptyRegistry)) docId = None"
    by (simp add: getOperation_def removeOperation_def Map_get_delete)
  show ?thesis
    using 1 2 3 by (simp add: getOperation_def completeOperation_removes errorOperation_removes)
qed

theorem history_pairs_distinct_witness:
  "freshStarts reopened
   \<and> map startedAt (history (run_ops reopened emptyRegistry)) = [1]
   \<and> map_option startedAt (getOperation (run_ops reopened emptyRegistry) ''doc-1'') = Some 3
   \<and> \<not> isDuplicate ''doc-1'' 3 (history (run_ops reopened emptyRegistry))
   \<and> distinct (map entryKey (history (run_ops reopened emptyRegistry)))"
proof -
  have f: "freshStarts reopened" by (simp add: freshStarts_def reopened_def)
  have g: "map_option startedAt (getOperation (run_ops reopened emptyRegistry) ''doc-1'') = Some 3"
    by (simp add: reopened_def registry_eval)
  have h: "map startedAt (history (run_ops reopened emptyRegistry)) = [1]"
    by (simp add: reopened_def registry_eval)
  from g obtain v where v: "getOperation (run_ops reopened emptyRegistry) ''doc-1'' = Some v"
    "startedAt v = 3" by auto
  note T = history_pairs_distinct [of reopened "''doc-1''" 0 "''x''"]
  from T have d: "distinct (map entryKey (history (run_ops reopened emptyRegistry)))"
    by (rule conjunct1)
  from T f have "\<forall>k v. getOperation (run_ops reopened emptyRegistry) k = Some v \<longrightarrow>
               \<not> isDuplicate k (startedAt v) (history (run_ops reopened emptyRegistry))"
    by (rule mp [OF conjunct1 [OF conjunct2]])
  from this [rule_format, OF v(1)] v(2)
  have nd: "\<not> isDuplicate ''doc-1'' 3 (history (run_ops reopened emptyRegistry))"
    by simp
  from f g h nd d show ?thesis by simp
qed

text \<open>
  C3 as stated fails: after a document is classified, finished and classified again its
  id is active and in history at once, and finishing it again puts the id in history
  twice.
\<close>

theorem id_active_and_in_history:
  "getOperation (run_ops reopened emptyRegistry) ''doc-1'' \<noteq> None
   \<and> map documentId (history (run_ops reopened emptyRegistry)) = [''doc-1'']
   \<and> map documentId (history (run_ops (reopened @ [Complete ''doc-1'' 4]) emptyRegistry))
       = [''doc-1'', ''doc-1'']"
  by (simp add: reopened_def registry_eval)

subsection \<open>The cap on history\<close>

lemma addToHistory_length:
  "length hs \<le> MAX_HISTORY \<Longrightarrow> length (addToHistory d t e hs) \<le> MAX_HISTORY"
  by (simp add: addToHistory_def)

lemma apply_op_length:
  assumes "length (history s) \<le> MAX_HISTORY"
  shows "length (history (apply_op x s)) \<le> MAX_HISTORY"
  using assms
  by (cases x)
     (auto simp: startOperation_def addProgress_def completeOperation_def errorOperation_def
        removeOperation_def clearHistory_def Let_def addToHistory_length split: option.splits)

lemma staleEffect_length:
  assumes "length (history s) \<le> MAX_HISTORY"
  shows "length (history (staleEffect now s)) \<le> MAX_HISTORY"
proof -
  have "length (take MAX_HISTORY xs) \<le> MAX_HISTORY" for xs :: "ProgressOperation list"
    by simp
  then show ?thesis using assms by (simp add: staleEffect_def Let_def del: length_take take_append)
qed

lemma apply_lifecycle_length:
  "length (history s) \<le> MAX_HISTORY \<Longrightarrow> length (history (apply_lifecycle e s)) \<le> MAX_HISTORY"
  by (cases e) (simp_all add: apply_op_length staleEffect_length)

lemma run_lifecycle_length:
  "length (history s) \<le> MAX_HISTORY \<Longrightarrow> length (history (run_lifecycle evs s)) \<le> MAX_HISTORY"
  unfolding run_lifecycle_def
  by (induction evs arbitrary: s) (simp_all add: apply_lifecycle_length)

lemma take_cap_front:
  assumes "length hs \<le> MAX_HISTORY"
  shows "take MAX_HISTORY (e # hs) = (if length hs < MAX_HISTORY then e # hs else e # butlast hs)"
proof (cases "length hs < MAX_HISTORY")
  case True
  then show ?thesis by simp
next
  case False
  with assms have len: "length hs = 50" by (simp add: MAX_HISTORY_def)
  have "take 50 (e # hs) = e # take 49 hs" by (simp add: take_Cons')
  also have "take 49 hs = butlast hs" using len by (simp add: butlast_conv_take)
  finally show ?thesis using False by (simp add: MAX_HISTORY_def)
qed

text \<open>
  C6. From a state whose history has at most 50 entries (the empty registry, or one
  restored from a snapshot the registry wrote), after any sequence of registry calls and
  stale checks the history has at most 50 entries. A terminal call for an active
  operation puts the finished entry first and, when the history is full, drops the last
  entry; it adds nothing when history already holds the operation's pair of id and start
  time.
\<close>

theorem history_capped:
  assumes "length (history s) \<le> MAX_HISTORY"
  shows "length (history (run_lifecycle evs s)) \<le> 50
    \<and> (getOperation (run_lifecycle evs s) docId = Some v \<longrightarrow>
          history (completeOperation docId now (run_lifecycle evs s))
            = (if isDuplicate docId (startedAt v) (history (run_lifecycle evs s))
               then history (run_lifecycle evs s)
               else inserted (v\<lparr>status := Completed, completedAt := Some now\<rparr>)
                      (history (run_lifecycle evs s)))
          \<and> history (errorOperation docId err now (run_lifecycle evs s))
            = (if isDuplicate docId (startedAt v) (history (run_lifecycle evs s))
               then history (run_lifecycle evs s)
               else inserted (v\<lparr>status := Error, completedAt := Some now, error := Some err\<rparr>)
                      (history (run_lifecycle evs s))))"
proof -
  have len: "length (history (run_lifecycle evs s)) \<le> MAX_HISTORY"
    using assms by (rule run_lifecycle_length)
  show ?thesis
    using len take_cap_front [OF len]
    by (auto simp: getOperation_def completeOperation_def errorOperation_def Let_def
          addToHistory_def inserted_def MAX_HISTORY_def)
qed

theorem history_capped_witness:
  "length (history fullHistory) \<le> MAX_HISTORY
   \<and> map_option startedAt
        (getOperation (run_lifecycle [Call (Start ''new'' None 100)] fullHistory) ''new'')
       = Some 100
   \<and> \<not> isDuplicate ''new'' 100 (history (run_lifecycle [Call (Start ''new'' None 100)] fullHistory))
   \<and> map startedAt (history (completeOperation ''new'' 101
                (run_lifecycle [Call (Start ''new'' None 100)] fullHistory)))
       = 100 # map int [0..<49]"
proof -
  let ?evs = "[Call (Start ''new'' None 100)]"
  let ?s = "run_lifecycle ?evs fullHistory"
  have len: "length (history fullHistory) \<le> MAX_HISTORY"
    by (simp add: fullHistory_def MAX_HISTORY_def)
  have hs: "history ?s = history fullHistory"
    by (simp add: run_lifecycle_def startOperation_def)
  have get: "getOperation ?s ''new''
      = Some \<lparr>documentId = ''new'', filename = None, status = Active, steps = [],
              startedAt = 100, completedAt = None, error = None\<rparr>"
    by (simp add: run_lifecycle_def startOperation_def getOperation_def fullHistory_def)
  have nd: "\<not> isDuplicate ''new'' 100 (history ?s)"
    unfolding hs by (simp add: isDuplicate_def fullHistory_def list_ex_iff)
  from history_capped [OF len, of ?evs "''new''"
         "\<lparr>documentId = ''new'', filename = None, status = Active, steps = [],
              startedAt = 100, completedAt = None, error = None\<rparr>" 101 "''x''"] get nd
  have "history (completeOperation ''new'' 101 ?s)
      = inserted (\<lparr>documentId = ''new'', filename = None, status = Active, steps = [],
              startedAt = 100, completedAt = None, error = None\<rparr>
                \<lparr>status := Completed, completedAt := Some 101\<rparr>) (history ?s)"
    by simp
  moreover have "butlast [0..<50::nat] = [0..<49]"
    by (simp add: butlast_conv_take)
  ultimately
  have "map startedAt (history (completeOperation ''new'' 101 ?s)) = 100 # map int [0..<49]"
    unfolding hs
    by (simp add: inserted_def fullHistory_def MAX_HISTORY_def map_butlast [symmetric] comp_def)
  with len get nd show ?thesis by simp
qed

subsection \<open>The stale check on load\<close>

lemma staleLoop_snd:
  "snd (staleLoop now ops m acc) = acc @ map (interrupted now) (filter (isStale now) ops)"
  by (induction ops arbitrary: m acc) (simp_all add: isStale_def)

lemma staleLoop_fst:
  "Map_get (fst (staleLoop now ops m acc)) k =
     (if k \<in> documentId ` {opn \<in> set ops. isStale now opn} then None else Map_get m k)"
  by (induction ops arbitrary: m acc) (auto simp: isStale_def Map_get_delete)

lemma Map_set_keys: "fst ` set (Map_set k v m) = insert k (fst ` set m)"
  by (induction m) auto

lemma Map_set_distinct: "distinct (map fst m) \<Longrightarrow> distinct (map fst (Map_set k v m))"
  by (induction m) (auto simp: Map_set_keys)

lemma Map_in_get: "distinct (map fst m) \<Longrightarrow> (k, v) \<in> set m \<Longrightarrow> Map_get m k = Some v"
  by (induction m) (auto simp: rev_image_eqI)

lemma Map_from_wellKeyed:
  assumes "list_all (\<lambda>e. documentId (snd e) = fst e) entries"
  shows "keysOk (Map_from entries) \<and> distinct (map fst (Map_from entries))"
proof -
  have "keysOk m \<and> distinct (map fst m) \<Longrightarrow>
        keysOk (foldl (\<lambda>m e. Map_set (fst e) (snd e) m) m entries)
        \<and> distinct (map fst (foldl (\<lambda>m e. Map_set (fst e) (snd e) m) m entries))" for m
    using assms
    by (induction entries arbitrary: m) (simp_all add: keysOk_set Map_set_distinct)
  then show ?thesis by (simp add: Map_from_def keysOk_def)
qed

lemma loadActive_wellKeyed:
  "keysOk (loadActive st) \<and> distinct (map fst (loadActive st))"
proof (cases "getItem st ACTIVE_STORAGE_KEY")
  case None
  then show ?thesis by (simp add: loadActive_def keysOk_def)
next
  case (Some parsed)
  have "list_all (\<lambda>e. documentId (snd e) = fst e) (map (\<lambda>opn. (documentId opn, opn)) parsed)"
    by (simp add: list_all_iff)
  from Map_from_wellKeyed [OF this] Some show ?thesis by (simp add: loadActive_def)
qed

lemma mount_active:
  "activeOperations (mount now st)
     = fst (staleLoop now (Map_values (loadActive st)) (loadActive st) [])"
  by (simp add: mount_def staleEffect_def initialState_def Let_def)

lemma mount_history:
  "history (mount now st)
     = (if staleOpsOf now (loadActive st) = [] then loadHistory st
        else take MAX_HISTORY (staleOpsOf now (loadActive st) @ loadHistory st))"
  by (simp add: mount_def staleEffect_def initialState_def Let_def staleLoop_snd staleOpsOf_def)

lemma restored_stale_removed:
  assumes "Map_get (loadActive st) k = Some v" "isStale now v"
  shows "getOperation (mount now st) k = None"
proof -
  have "(k, v) \<in> set (loadActive st)" using assms(1) by (rule Map_get_in)
  moreover have "documentId v = k"
    using loadActive_wellKeyed assms(1) by (blast dest: keysOk_get)
  ultimately have "k \<in> documentId ` {opn \<in> set (Map_values (loadActive st)). isStale now opn}"
    using assms(2) by (force simp: Map_values_def)
  then show ?thesis by (simp add: getOperation_def mount_active staleLoop_fst)
qed

lemma restored_fresh_kept:
  assumes "Map_get (loadActive st) k = Some v" "\<not> isStale now v"
  shows "getOperation (mount now st) k = Some v"
proof -
  have "k \<notin> documentId ` {opn \<in> set (Map_values (loadActive st)). isStale now opn}"
  proof
    assume "k \<in> documentId ` {opn \<in> set (Map_values (loadActive st)). isStale now opn}"
    then obtain w k' where w: "(k', w) \<in> set (loadActive st)" "isStale now w" "documentId w = k"
      by (auto simp: Map_values_def)
    have wk: "keysOk (loadActive st)" "distinct (map fst (loadActive st))"
      using loadActive_wellKeyed by blast+
    from wk(2) w(1) have g: "Map_get (loadActive st) k' = Some w" by (rule Map_in_get)
    with wk(1) have "documentId w = k'" by (rule keysOk_get)
    with w(3) g assms(1) have "w = v" by simp
    with w(2) assms(2) show False by simp
  qed
  then show ?thesis using assms(1) by (simp add: getOperation_def mount_active staleLoop_fst)
qed

lemma restored_stale_in_history:
  assumes "Map_get (loadActive st) k = Some v" "isStale now v"
    and "length (staleOpsOf now (loadActive st)) \<le> MAX_HISTORY"
  shows "interrupted now v \<in> set (history (mount now st))"
proof -
  have "(k, v) \<in> set (loadActive st)" using assms(1) by (rule Map_get_in)
  then have "v \<in> set (Map_values (loadActive st))" by (force simp: Map_values_def)
  then have mem: "interrupted now v \<in> set (staleOpsOf now (loadActive st))"
    using assms(2) by (simp add: staleOpsOf_def)
  then have "staleOpsOf now (loadActive st) \<noteq> []" by auto
  then show ?thesis using mem assms(3) by (simp add: mount_history)
qed

text \<open>
  C5, as the code has it. On load, a restored active entry older than five minutes is
  absent from the active set, and its copy with status \<^verbatim>\<open>error\<close>, \<^verbatim>\<open>completedAt = now\<close>
  and the message "Operation interrupted (page refresh)" is in history when at most 50
  restored entries are stale; an entry at or under five minutes stays active as it was.
  History after the load is the stale copies, in the map's order, in front of the
  restored history, cut to 50 entries.
\<close>

theorem stale_operations_on_load:
  assumes "Map_get (loadActive st) k = Some v"
  shows "(now - startedAt v > fiveMinutes \<longrightarrow>
            getOperation (mount now st) k = None
            \<and> (length (staleOpsOf now (loadActive st)) \<le> MAX_HISTORY \<longrightarrow>
                 interrupted now v \<in> set (history (mount now st))))
         \<and> (\<not> now - startedAt v > fiveMinutes \<longrightarrow> getOperation (mount now st) k = Some v)
         \<and> interrupted now v
             = v\<lparr>status := Error, completedAt := Some now,
                 error := Some ''Operation interrupted (page refresh)''\<rparr>
         \<and> documentId (interrupted now v) = k
         \<and> history (mount now st)
             = (if staleOpsOf now (loadActive st) = [] then loadHistory st
                else take MAX_HISTORY (staleOpsOf now (loadActive st) @ loadHistory st))
         \<and> fiveMinutes = 300000 \<and> MAX_HISTORY = 50"
proof -
  have d: "documentId v = k"
    using loadActive_wellKeyed assms by (blast dest: keysOk_get)
  show ?thesis
    using restored_stale_removed [OF assms, of now] restored_fresh_kept [OF assms, of now]
      restored_stale_in_history [OF assms, of now] mount_history [of now st] d
    by (simp add: isStale_def interrupted_def fiveMinutes_def MAX_HISTORY_def)
qed

theorem stale_operations_on_load_witness:
  "Map_get (loadActive refreshed) ''doc-a'' = Some abandonedOp
   \<and> 400000 - startedAt abandonedOp > fiveMinutes
   \<and> getOperation (mount 400000 refreshed) ''doc-a'' = None
   \<and> length (staleOpsOf 400000 (loadActive refreshed)) \<le> MAX_HISTORY
   \<and> history (mount 400000 refreshed) = [interrupted 400000 abandonedOp]
   \<and> Map_get (loadActive refreshed) ''doc-b'' = Some recentOp
   \<and> 400000 - startedAt recentOp = fiveMinutes
   \<and> getOperation (mount 400000 refreshed) ''doc-b'' = Some recentOp"
proof -
  have a: "Map_get (loadActive refreshed) ''doc-a'' = Some abandonedOp"
    by code_simp
  have b: "Map_get (loadActive refreshed) ''doc-b'' = Some recentOp"
    by code_simp
  have ages: "400000 - startedAt abandonedOp > fiveMinutes"
    "400000 - startedAt recentOp = fiveMinutes"
    by (simp_all add: abandonedOp_def recentOp_def fiveMinutes_def)
  have st: "staleOpsOf 400000 (loadActive refreshed) = [interrupted 400000 abandonedOp]"
    by code_simp
  have len: "length (staleOpsOf 400000 (loadActive refreshed)) \<le> MAX_HISTORY"
    unfolding st by (simp add: MAX_HISTORY_def)
  have h: "loadHistory refreshed = []"
    by code_simp
  have nb: "\<not> 400000 - startedAt recentOp > fiveMinutes"
    using ages(2) by simp
  note A = stale_operations_on_load [OF a, of 400000]
  from A ages(1) have a1: "getOperation (mount 400000 refreshed) ''doc-a'' = None"
    by (elim conjE) (erule impE, assumption, erule conjE, assumption)
  from A have "history (mount 400000 refreshed)
             = (if staleOpsOf 400000 (loadActive refreshed) = [] then loadHistory refreshed
                else take MAX_HISTORY (staleOpsOf 400000 (loadActive refreshed)
                       @ loadHistory refreshed))"
    by (elim conjE)
  then have a2: "history (mount 400000 refreshed) = [interrupted 400000 abandonedOp]"
    unfolding st h by (simp add: MAX_HISTORY_def)
  note B = stale_operations_on_load [OF b, of 400000]
  from B nb have b1: "getOperation (mount 400000 refreshed) ''doc-b'' = Some recentOp"
    by (elim conjE) (erule (1) impE [where P = "\<not> 400000 - startedAt recentOp > fiveMinutes"])
  from a b ages len a1 a2 b1 show ?thesis by (intro conjI)
qed

text \<open>
  C5 as stated fails when more than 50 restored entries are stale: with 51 of them the
  last one in the map's order is dropped from the active set and is not in history.
\<close>

theorem stale_operation_lost_on_load:
  "map_option startedAt (Map_get (loadActive crowded) ''50'') = Some 50
   \<and> 1000000 - 50 > fiveMinutes
   \<and> getOperation (mount 1000000 crowded) ''50'' = None
   \<and> \<not> list_ex (\<lambda>h. documentId h = ''50'') (history (mount 1000000 crowded))"
  by code_simp

section \<open>Properties of the completion arbiter\<close>

lemmas arb_defs =
  onProgressCb_def onCompleteCb_def onErrorCb_def requestResolved_def requestRejected_def
  completionTimerFired_def cleanupTimerFired_def unsubscribe_def clearTimeout_def Let_def

lemma arb_step_settled_registry:
  assumes "isCompleted s" "\<not> isProgress e"
  shows "isCompleted (arb_step d e s) \<and> registry (arb_step d e s) = registry s"
  using assms by (cases e) (simp_all add: arb_defs)

lemma arb_step_stays_settled: "isCompleted s \<Longrightarrow> isCompleted (arb_step d e s)"
  by (cases e) (simp_all add: arb_defs)

lemma arb_step_settledInv:
  assumes "settledInv d s"
  shows "settledInv d (arb_step d e s)"
proof (cases e)
  case (StreamProgress m i r n)
  then show ?thesis using assms
    by (auto simp: settledInv_def arb_defs getOperation_def addProgress_def)
next
  case (StreamComplete n)
  then show ?thesis using assms
    by (auto simp: settledInv_def arb_defs getOperation_def completeOperation_removes)
next
  case (StreamError err n)
  then show ?thesis using assms
    by (auto simp: settledInv_def arb_defs getOperation_def errorOperation_removes)
next
  case RequestSuccess
  then show ?thesis using assms by (auto simp: settledInv_def arb_defs)
next
  case (RequestFailure m n)
  then show ?thesis using assms
    by (auto simp: settledInv_def arb_defs getOperation_def errorOperation_removes)
next
  case (GraceTimerFires n)
  then show ?thesis using assms
    by (auto simp: settledInv_def arb_defs getOperation_def completeOperation_removes)
next
  case (SafetyTimerFires n)
  then show ?thesis using assms
    by (auto simp: settledInv_def arb_defs getOperation_def completeOperation_removes)
qed

lemma arb_step_settled_all:
  assumes "settledInv d s" "isCompleted s"
  shows "registry (arb_step d e s) = registry s"
proof (cases "isProgress e")
  case False
  with assms(2) show ?thesis by (simp add: arb_step_settled_registry)
next
  case True
  then obtain m i r n where "e = StreamProgress m i r n" by (cases e) auto
  then show ?thesis using assms
    by (simp add: settledInv_def arb_defs getOperation_def addProgress_def)
qed

lemma arb_run_snoc: "arb_run d (evs @ [e]) s = arb_step d e (arb_run d evs s)"
  by (simp add: arb_run_def)

lemma arb_run_append: "arb_run d (xs @ ys) s = arb_run d ys (arb_run d xs s)"
  by (simp add: arb_run_def)

lemma arb_run_settledInv: "settledInv d s \<Longrightarrow> settledInv d (arb_run d evs s)"
  by (induction evs rule: rev_induct) (simp_all add: arb_run_def arb_step_settledInv)

lemma arb_run_settled:
  assumes "settledInv d s" "isCompleted s"
  shows "isCompleted (arb_run d evs s) \<and> registry (arb_run d evs s) = registry s"
proof (induction evs rule: rev_induct)
  case Nil
  then show ?case using assms by (simp add: arb_run_def)
next
  case (snoc e evs)
  then show ?case
    using arb_step_settled_all [OF arb_run_settledInv [OF assms(1)], of evs e]
    by (simp add: arb_run_snoc arb_step_stays_settled)
qed

lemma beginClassify_settledInv: "settledInv d (beginClassify d f now errNow throws reg)"
  by (simp add: settledInv_def beginClassify_def getOperation_def errorOperation_removes)

text \<open>
  C1, as the code has it. While the job is unsettled, the first of stream-complete,
  stream-error, request-failure, the 2-second timer and the 5-second timer sets
  \<^verbatim>\<open>isCompleted\<close> and makes the terminal call on the registry (\<^verbatim>\<open>completeOperation\<close> for
  stream-complete and the timers, \<^verbatim>\<open>errorOperation\<close> for the two others). The success of
  the request settles nothing: it leaves the flag and the registry as they are and sets
  the two timers. Once a call of \<^verbatim>\<open>handleClassifyDocument\<close> has settled its job, no later
  signal of that call, of either source, changes the registry.
\<close>

theorem first_settling_signal_wins:
  "(\<not> isCompleted s \<longrightarrow>
      isCompleted (arb_step d (StreamComplete now) s)
      \<and> registry (arb_step d (StreamComplete now) s) = completeOperation d now (registry s)
      \<and> isCompleted (arb_step d (StreamError err now) s)
      \<and> registry (arb_step d (StreamError err now) s)
          = errorOperation d (orConnectionError err) now (registry s)
      \<and> (requestPending s \<longrightarrow>
            isCompleted (arb_step d (RequestFailure msg now) s)
            \<and> registry (arb_step d (RequestFailure msg now) s)
                = errorOperation d msg now (registry s))
      \<and> (completionTimer s = Waiting \<longrightarrow>
            isCompleted (arb_step d (GraceTimerFires now) s)
            \<and> registry (arb_step d (GraceTimerFires now) s)
                = completeOperation d now (registry s))
      \<and> (cleanupTimer s = Waiting \<longrightarrow>
            isCompleted (arb_step d (SafetyTimerFires now) s)
            \<and> registry (arb_step d (SafetyTimerFires now) s)
                = completeOperation d now (registry s)))
   \<and> (requestPending s \<longrightarrow>
        isCompleted (arb_step d RequestSuccess s) = isCompleted s
        \<and> registry (arb_step d RequestSuccess s) = registry s
        \<and> completionTimer (arb_step d RequestSuccess s) = Waiting
        \<and> cleanupTimer (arb_step d RequestSuccess s) = Waiting)
   \<and> (isCompleted (arb_run d evs (beginClassify d f t0 t1 throws reg)) \<longrightarrow>
        isCompleted (arb_run d (evs @ later) (beginClassify d f t0 t1 throws reg))
        \<and> registry (arb_run d (evs @ later) (beginClassify d f t0 t1 throws reg))
            = registry (arb_run d evs (beginClassify d f t0 t1 throws reg)))"
proof -
  have inv: "settledInv d (arb_run d evs (beginClassify d f t0 t1 throws reg))"
    by (rule arb_run_settledInv) (rule beginClassify_settledInv)
  have C: "isCompleted (arb_run d evs (beginClassify d f t0 t1 throws reg)) \<longrightarrow>
        isCompleted (arb_run d (evs @ later) (beginClassify d f t0 t1 throws reg))
        \<and> registry (arb_run d (evs @ later) (beginClassify d f t0 t1 throws reg))
            = registry (arb_run d evs (beginClassify d f t0 t1 throws reg))"
    using arb_run_settled [OF inv, of later] by (simp add: arb_run_append)
  show ?thesis
    by (intro conjI C) (simp_all add: arb_defs)
qed

lemmas begin_eval =
  beginClassify_def subscribeToProgress_def connect_def act_def cleanup_def arb_run_def
  orConnectionError_def cleanupCalls_def

theorem first_settling_signal_wins_witness:
  "\<not> isCompleted job2 \<and> requestPending job2
   \<and> isCompleted (arb_run ''doc-2'' [StreamError None 5] job2)
   \<and> map status (history (registry (arb_run ''doc-2'' [StreamError None 5] job2))) = [Error]
   \<and> registry (arb_run ''doc-2''
         ([StreamError None 5] @ [RequestSuccess, StreamComplete 7, GraceTimerFires 9,
                                  SafetyTimerFires 12]) job2)
       = registry (arb_run ''doc-2'' [StreamError None 5] job2)
   \<and> completionTimer (arb_step ''doc-2'' RequestSuccess job2) = Waiting
   \<and> cleanupTimer (arb_step ''doc-2'' RequestSuccess job2) = Waiting
   \<and> \<not> isCompleted (arb_step ''doc-2'' RequestSuccess job2)
   \<and> map status (history (registry
         (arb_step ''doc-2'' (GraceTimerFires 9) (arb_step ''doc-2'' RequestSuccess job2))))
       = [Completed]"
proof -
  let ?d = "''doc-2''"
  let ?s1 = "arb_step ?d RequestSuccess job2"
  have p: "\<not> isCompleted job2" "requestPending job2"
    by (simp_all add: job2_def beginClassify_def)
  note T0 = first_settling_signal_wins
    [of job2 ?d 5 None "''x''" "[StreamError None 5]" None 1 1 False emptyRegistry
        "[RequestSuccess, StreamComplete 7, GraceTimerFires 9, SafetyTimerFires 12]"]
  from T0 p have e1: "isCompleted (arb_step ?d (StreamError None 5) job2)"
    and e2: "registry (arb_step ?d (StreamError None 5) job2)
       = errorOperation ?d (orConnectionError None) 5 (registry job2)"
    and r1: "isCompleted ?s1 = isCompleted job2"
    and r2: "completionTimer ?s1 = Waiting" and r3: "cleanupTimer ?s1 = Waiting"
    by simp_all
  have run1: "arb_run ?d [StreamError None 5] job2 = arb_step ?d (StreamError None 5) job2"
    by (simp add: arb_run_def)
  from T0 e1 have e3: "registry (arb_run ?d
         ([StreamError None 5] @ [RequestSuccess, StreamComplete 7, GraceTimerFires 9,
                                  SafetyTimerFires 12]) job2)
       = registry (arb_run ?d [StreamError None 5] job2)"
    unfolding job2_def [symmetric] run1 by simp
  have e4: "map status (history (registry (arb_run ?d [StreamError None 5] job2))) = [Error]"
    unfolding run1 e2 by (simp add: job2_def begin_eval registry_eval)
  from r1 p have q: "\<not> isCompleted ?s1" by simp
  note T1 = first_settling_signal_wins
    [of ?s1 ?d 9 None "''x''" "[]" None 1 1 False emptyRegistry "[]"]
  from T1 q r2 have g: "registry (arb_step ?d (GraceTimerFires 9) ?s1)
       = completeOperation ?d 9 (registry ?s1)"
    by simp
  have e5: "map status (history (registry (arb_step ?d (GraceTimerFires 9) ?s1))) = [Completed]"
    unfolding g by (simp add: job2_def begin_eval registry_eval arb_defs)
  from p e1 e3 e4 r2 r3 q e5 show ?thesis
    unfolding run1 by (intro conjI)
qed

text \<open>
  C1 as stated fails for the request's success: when it comes first the job is not
  settled and the registry still holds it as active, and an error of the stream that
  comes after it moves the job to history.
\<close>

theorem request_success_does_not_settle:
  "\<not> isCompleted (arb_run ''doc-2'' [RequestSuccess] job2)
   \<and> getOperation (registry (arb_run ''doc-2'' [RequestSuccess] job2)) ''doc-2'' \<noteq> None
   \<and> history (registry (arb_run ''doc-2'' [RequestSuccess] job2)) = []
   \<and> map status (history (registry (arb_run ''doc-2'' [RequestSuccess, StreamError None 5] job2)))
       = [Error]
   \<and> getOperation (registry (arb_run ''doc-2'' [RequestSuccess, StreamError None 5] job2))
        ''doc-2'' = None"
  by (simp add: job2_def begin_eval registry_eval arb_defs)

lemma arb_step_timerInv: "timerInv s \<Longrightarrow> timerInv (arb_step d e s)"
  by (cases e) (auto simp: timerInv_def arb_defs)

lemma arb_run_timerInv: "timerInv s \<Longrightarrow> timerInv (arb_run d evs s)"
  by (induction evs rule: rev_induct) (simp_all add: arb_run_def arb_step_timerInv)

lemma beginClassify_timerInv: "timerInv (beginClassify d f t0 t1 throws reg)"
  by (simp add: timerInv_def beginClassify_def)

text \<open>
  C8, as the code has it. When stream-complete, stream-error, request-failure or the
  5-second timer settles the job, no timer of the job is waiting afterwards. When the
  2-second timer settles it, that timer has run and the 5-second timer is left as it
  was, which in every run of the call is waiting. A request that succeeds after the job
  has settled sets both timers, and they wait. A timer that runs when the job is settled
  leaves the registry as it is.
\<close>

theorem timers_at_settling:
  "(\<not> isCompleted s \<longrightarrow>
      \<not> timersWaiting (arb_step d (StreamComplete now) s)
      \<and> \<not> timersWaiting (arb_step d (StreamError err now) s)
      \<and> (requestPending s \<longrightarrow> \<not> timersWaiting (arb_step d (RequestFailure msg now) s))
      \<and> (cleanupTimer s = Waiting \<longrightarrow>
            \<not> timersWaiting (arb_step d (SafetyTimerFires now) s))
      \<and> (completionTimer s = Waiting \<longrightarrow>
            isCompleted (arb_step d (GraceTimerFires now) s)
            \<and> completionTimer (arb_step d (GraceTimerFires now) s) = Ran
            \<and> cleanupTimer (arb_step d (GraceTimerFires now) s) = cleanupTimer s))
   \<and> (isCompleted s \<and> requestPending s \<longrightarrow>
        isCompleted (arb_step d RequestSuccess s)
        \<and> completionTimer (arb_step d RequestSuccess s) = Waiting
        \<and> cleanupTimer (arb_step d RequestSuccess s) = Waiting)
   \<and> (completionTimer (arb_run d evs (beginClassify d f t0 t1 throws reg)) = Waiting \<longrightarrow>
        cleanupTimer (arb_run d evs (beginClassify d f t0 t1 throws reg)) = Waiting)
   \<and> (isCompleted s \<and> cleanupTimer s = Waiting \<longrightarrow>
        registry (arb_step d (SafetyTimerFires now) s) = registry s
        \<and> \<not> timersWaiting (arb_step d (SafetyTimerFires now) s))
   \<and> (isCompleted s \<and> completionTimer s = Waiting \<longrightarrow>
        registry (arb_step d (GraceTimerFires now) s) = registry s
        \<and> completionTimer (arb_step d (GraceTimerFires now) s) = Ran)"
proof -
  have C: "completionTimer (arb_run d evs (beginClassify d f t0 t1 throws reg)) = Waiting \<longrightarrow>
        cleanupTimer (arb_run d evs (beginClassify d f t0 t1 throws reg)) = Waiting"
    using arb_run_timerInv [OF beginClassify_timerInv, of d evs d f t0 t1 throws reg]
    by (simp add: timerInv_def)
  show ?thesis
    by (intro conjI C) (simp_all add: arb_defs timersWaiting_def)
qed

text \<open>
  C8 as stated fails: when the 2-second timer settles the job the 5-second timer is
  still waiting, and when the stream settles the job before the request resolves, both
  timers are set afterwards and wait.
\<close>

theorem timer_waiting_in_settled_state:
  "isCompleted (arb_run ''doc-3'' [RequestSuccess, GraceTimerFires 2500] job3)
   \<and> cleanupTimer (arb_run ''doc-3'' [RequestSuccess, GraceTimerFires 2500] job3) = Waiting
   \<and> isCompleted (arb_run ''doc-3'' [StreamComplete 300, RequestSuccess] job3)
   \<and> completionTimer (arb_run ''doc-3'' [StreamComplete 300, RequestSuccess] job3) = Waiting
   \<and> cleanupTimer (arb_run ''doc-3'' [StreamComplete 300, RequestSuccess] job3) = Waiting"
  by (simp add: job3_def begin_eval arb_defs)

theorem timers_at_settling_witness:
  "\<not> isCompleted job3 \<and> requestPending job3
   \<and> \<not> timersWaiting (arb_step ''doc-3'' (StreamComplete 300) job3)
   \<and> \<not> timersWaiting (arb_step ''doc-3'' (RequestFailure ''Network Error'' 300) job3)
   \<and> \<not> isCompleted (arb_step ''doc-3'' RequestSuccess job3)
   \<and> completionTimer (arb_step ''doc-3'' RequestSuccess job3) = Waiting
   \<and> cleanupTimer (arb_step ''doc-3'' RequestSuccess job3) = Waiting
   \<and> \<not> timersWaiting (arb_step ''doc-3'' (StreamError None 900)
                          (arb_step ''doc-3'' RequestSuccess job3))
   \<and> \<not> timersWaiting (arb_step ''doc-3'' (SafetyTimerFires 5500)
                          (arb_step ''doc-3'' RequestSuccess job3))
   \<and> cleanupTimer (arb_step ''doc-3'' (GraceTimerFires 2500)
                      (arb_step ''doc-3'' RequestSuccess job3)) = Waiting
   \<and> isCompleted (arb_step ''doc-3'' (StreamComplete 300) job3)
   \<and> requestPending (arb_step ''doc-3'' (StreamComplete 300) job3)
   \<and> completionTimer (arb_step ''doc-3'' RequestSuccess
                          (arb_step ''doc-3'' (StreamComplete 300) job3)) = Waiting
   \<and> isCompleted (arb_step ''doc-3'' (GraceTimerFires 2500)
                     (arb_step ''doc-3'' RequestSuccess job3))
   \<and> \<not> timersWaiting
         (arb_step ''doc-3'' (SafetyTimerFires 5500)
            (arb_step ''doc-3'' (GraceTimerFires 2500) (arb_step ''doc-3'' RequestSuccess job3)))
   \<and> completionTimer
         (arb_step ''doc-3'' (GraceTimerFires 2500)
            (arb_step ''doc-3'' RequestSuccess (arb_step ''doc-3'' (StreamComplete 300) job3)))
       = Ran"
proof -
  let ?d = "''doc-3''"
  let ?s1 = "arb_step ?d RequestSuccess job3"
  let ?s2 = "arb_step ?d (StreamComplete 300) job3"
  have p: "\<not> isCompleted job3" "requestPending job3"
    by (simp_all add: job3_def beginClassify_def)
  have q: "\<not> isCompleted ?s1" "completionTimer ?s1 = Waiting" "cleanupTimer ?s1 = Waiting"
    by (simp_all add: job3_def beginClassify_def arb_defs)
  have r: "isCompleted ?s2" "requestPending ?s2"
    by (simp_all add: job3_def beginClassify_def arb_defs)
  note T0 = timers_at_settling
    [of job3 ?d 300 None "''Network Error''" "[]" None 0 0 False emptyRegistry]
  from T0 p have a: "\<not> timersWaiting (arb_step ?d (StreamComplete 300) job3)"
    and b: "\<not> timersWaiting (arb_step ?d (RequestFailure ''Network Error'' 300) job3)"
    by simp_all
  note T1 = timers_at_settling
    [of ?s1 ?d 900 None "''x''" "[RequestSuccess]" None 0 0 False emptyRegistry]
  from T1 q have c: "\<not> timersWaiting (arb_step ?d (StreamError None 900) ?s1)"
    by simp
  note T2 = timers_at_settling
    [of ?s1 ?d 5500 None "''x''" "[RequestSuccess]" None 0 0 False emptyRegistry]
  from T2 q have d: "\<not> timersWaiting (arb_step ?d (SafetyTimerFires 5500) ?s1)"
    by simp
  note T3 = timers_at_settling
    [of ?s1 ?d 2500 None "''x''" "[RequestSuccess]" None 0 0 False emptyRegistry]
  from T3 q have e: "cleanupTimer (arb_step ?d (GraceTimerFires 2500) ?s1) = Waiting"
    by simp
  note T4 = timers_at_settling
    [of ?s2 ?d 2500 None "''x''" "[]" None 0 0 False emptyRegistry]
  from T4 r have f: "completionTimer (arb_step ?d RequestSuccess ?s2) = Waiting"
    by simp
  let ?s3 = "arb_step ?d (GraceTimerFires 2500) ?s1"
  let ?s4 = "arb_step ?d RequestSuccess ?s2"
  have u: "isCompleted ?s3" "cleanupTimer ?s3 = Waiting"
    by (simp_all add: job3_def beginClassify_def arb_defs)
  have v: "isCompleted ?s4" "completionTimer ?s4 = Waiting"
    by (simp_all add: job3_def beginClassify_def arb_defs)
  note T5 = timers_at_settling
    [of ?s3 ?d 5500 None "''x''" "[]" None 0 0 False emptyRegistry]
  from T5 u have g: "\<not> timersWaiting (arb_step ?d (SafetyTimerFires 5500) ?s3)"
    by simp
  note T6 = timers_at_settling
    [of ?s4 ?d 2500 None "''x''" "[]" None 0 0 False emptyRegistry]
  from T6 v have h: "completionTimer (arb_step ?d (GraceTimerFires 2500) ?s4) = Ran"
    by simp
  from p a b q c d e r f u(1) g h show ?thesis by (intro conjI)
qed

lemma cleanupCalls_cleanup: "cleanupCalls (cleanup sub) = cleanupCalls sub + 1"
  by (simp add: cleanup_def act_def cleanupCalls_def Let_def split: option.splits)

lemma progress_step_frame:
  assumes "isProgress e"
  shows "isCompleted (arb_step d e s) = isCompleted s"
    "completionTimer (arb_step d e s) = completionTimer s"
    "cleanupTimer (arb_step d e s) = cleanupTimer s"
    "requestPending (arb_step d e s) = requestPending s"
    "subscription (arb_step d e s) = subscription s"
    "history (registry (arb_step d e s)) = history (registry s)"
    "getOperation (registry s) d = Some v \<Longrightarrow>
     getOperation (registry (arb_step d e s)) d = Some (v\<lparr>steps := steps v @ progressStep d e\<rparr>)"
  using assms
  by (cases e; simp add: arb_defs addProgress_def getOperation_def Map_get_set
        split: option.splits)+

lemma progress_run_frame:
  assumes "list_all isProgress ps"
  shows "isCompleted (arb_run d ps s) = isCompleted s
    \<and> completionTimer (arb_run d ps s) = completionTimer s
    \<and> cleanupTimer (arb_run d ps s) = cleanupTimer s
    \<and> requestPending (arb_run d ps s) = requestPending s
    \<and> subscription (arb_run d ps s) = subscription s
    \<and> history (registry (arb_run d ps s)) = history (registry s)
    \<and> (getOperation (registry s) d = Some v \<longrightarrow>
         getOperation (registry (arb_run d ps s)) d
           = Some (v\<lparr>steps := steps v @ stepsOf d ps\<rparr>))"
  using assms
proof (induction ps rule: rev_induct)
  case Nil
  then show ?case by (simp add: arb_run_def stepsOf_def)
next
  case (snoc e ps)
  then have e: "isProgress e" and ps: "list_all isProgress ps" by simp_all
  note IH = snoc.IH [OF ps]
  show ?case
    using IH progress_step_frame [OF e, where d = d and s = "arb_run d ps s"]
    by (auto simp: arb_run_snoc stepsOf_def)
qed

lemma beginClassify_facts:
  "\<not> isCompleted (beginClassify d f t0 t0' False reg)"
  "requestPending (beginClassify d f t0 t0' False reg)"
  "getOperation (registry (beginClassify d f t0 t0' False reg)) d = Some (startedOp d f t0 [])"
  "history (registry (beginClassify d f t0 t0' False reg)) = history reg"
  "cleanupCalls (subscription (beginClassify d f t0 t0' False reg)) = 0"
  by (simp_all add: beginClassify_def startOperation_def getOperation_def Map_get_set
        startedOp_def subscribeToProgress_def connect_def act_def cleanupCalls_def)

text \<open>
  C9, as the code has it. When the request succeeds and the stream delivers nothing but
  progress, the job is still unsettled before the 2-second timer runs; that timer
  completes the operation in the registry (it leaves the active set and is added to
  history as completed, with the steps delivered so far) and calls the cleanup function
  once, which closes the event source; the 5-second timer, still waiting, calls it a
  second time and leaves the registry as it is. Over the whole run the cleanup function is called exactly twice.
\<close>

theorem fallback_completes_and_cleans_twice:
  assumes "list_all isProgress ps1" "list_all isProgress ps2" "list_all isProgress ps3"
  shows
    "\<not> isCompleted (arb_run d (ps1 @ [RequestSuccess] @ ps2) (beginClassify d f t0 t0' False reg))
     \<and> isCompleted (arb_run d (untilFallback ps1 ps2 t1) (beginClassify d f t0 t0' False reg))
     \<and> getOperation
          (registry (arb_run d (untilFallback ps1 ps2 t1) (beginClassify d f t0 t0' False reg))) d
         = None
     \<and> history
          (registry (arb_run d (untilFallback ps1 ps2 t1) (beginClassify d f t0 t0' False reg)))
         = addToHistory d t0
             ((startedOp d f t0 (stepsOf d (ps1 @ ps2)))
                \<lparr>status := Completed, completedAt := Some t1\<rparr>)
             (history reg)
     \<and> cleanupCalls
          (subscription (arb_run d (untilFallback ps1 ps2 t1) (beginClassify d f t0 t0' False reg)))
         = 1
     \<and> cleanupTimer (arb_run d (untilFallback ps1 ps2 t1) (beginClassify d f t0 t0' False reg))
         = Waiting
     \<and> \<not> eventSource
           (subscription (arb_run d (untilFallback ps1 ps2 t1)
              (beginClassify d f t0 t0' False reg)))
     \<and> registry (arb_run d (wholeRun ps1 ps2 t1 ps3 t2) (beginClassify d f t0 t0' False reg))
         = registry (arb_run d (untilFallback ps1 ps2 t1) (beginClassify d f t0 t0' False reg))
     \<and> cleanupCalls
          (subscription (arb_run d (wholeRun ps1 ps2 t1 ps3 t2)
             (beginClassify d f t0 t0' False reg)))
         = 2
     \<and> \<not> timersWaiting (arb_run d (wholeRun ps1 ps2 t1 ps3 t2)
             (beginClassify d f t0 t0' False reg))"
proof -
  define s0 where "s0 = beginClassify d f t0 t0' False reg"
  define sP1 where "sP1 = arb_run d ps1 s0"
  define sR where "sR = arb_step d RequestSuccess sP1"
  define sP2 where "sP2 = arb_run d ps2 sR"
  define sG where "sG = arb_step d (GraceTimerFires t1) sP2"
  define sP3 where "sP3 = arb_run d ps3 sG"
  define sS where "sS = arb_step d (SafetyTimerFires t2) sP3"
  note F0 = beginClassify_facts [of d f t0 t0' reg, folded s0_def]
  note P1 = progress_run_frame [OF assms(1), of d s0 "startedOp d f t0 []", folded sP1_def]
  have p1: "\<not> isCompleted sP1" "requestPending sP1"
    "getOperation (registry sP1) d = Some (startedOp d f t0 (stepsOf d ps1))"
    "history (registry sP1) = history reg" "cleanupCalls (subscription sP1) = 0"
    using P1 F0 by (simp_all add: startedOp_def)
  have r: "\<not> isCompleted sR" "completionTimer sR = Waiting" "cleanupTimer sR = Waiting"
    "registry sR = registry sP1" "subscription sR = subscription sP1"
    using p1 by (simp_all add: sR_def arb_defs)
  note P2 = progress_run_frame
    [OF assms(2), of d sR "startedOp d f t0 (stepsOf d ps1)", folded sP2_def]
  have p2: "\<not> isCompleted sP2" "completionTimer sP2 = Waiting" "cleanupTimer sP2 = Waiting"
    "getOperation (registry sP2) d = Some (startedOp d f t0 (stepsOf d (ps1 @ ps2)))"
    "history (registry sP2) = history reg" "cleanupCalls (subscription sP2) = 0"
    using P2 r p1 by (simp_all add: startedOp_def stepsOf_def)
  have g: "isCompleted sG" "cleanupTimer sG = Waiting" "completionTimer sG = Ran"
    "registry sG = completeOperation d t1 (registry sP2)"
    "subscription sG = cleanup (subscription sP2)"
    using p2 by (simp_all add: sG_def arb_defs)
  have g1: "getOperation (registry sG) d = None"
    unfolding g(4) by (simp add: getOperation_def completeOperation_removes)
  have g2: "history (registry sG)
      = addToHistory d t0
          ((startedOp d f t0 (stepsOf d (ps1 @ ps2)))\<lparr>status := Completed, completedAt := Some t1\<rparr>)
          (history reg)"
    unfolding g(4) using p2(4,5)
    by (simp add: completeOperation_def getOperation_def Let_def startedOp_def)
  have g3: "cleanupCalls (subscription sG) = 1"
    unfolding g(5) using p2(6) by (simp add: cleanupCalls_cleanup)
  have g4: "\<not> eventSource (subscription sG)"
    unfolding g(5) by (simp add: cleanup_def Let_def act_def split: option.splits)
  have inv: "settledInv d sG"
    using g1 by (simp add: settledInv_def)
  note P3 = progress_run_frame [OF assms(3), of d sG, folded sP3_def]
  have p3: "isCompleted sP3" "cleanupTimer sP3 = Waiting" "completionTimer sP3 = Ran"
    "subscription sP3 = subscription sG" "registry sP3 = registry sG"
    using P3 g arb_run_settled [OF inv g(1), of ps3] by (simp_all add: sP3_def)
  have f: "registry sS = registry sG" "subscription sS = cleanup (subscription sG)"
    "\<not> timersWaiting sS"
    using p3 by (simp_all add: sS_def arb_defs timersWaiting_def)
  have f2: "cleanupCalls (subscription sS) = 2"
    unfolding f(2) using g3 by (simp add: cleanupCalls_cleanup)
  have runs: "arb_run d (ps1 @ [RequestSuccess] @ ps2) s0 = sP2"
    "arb_run d (untilFallback ps1 ps2 t1) s0 = sG"
    "arb_run d (wholeRun ps1 ps2 t1 ps3 t2) s0 = sS"
    by (simp_all add: arb_run_def untilFallback_def wholeRun_def sS_def sP3_def sG_def sP2_def
          sR_def sP1_def)
  show ?thesis
    unfolding s0_def [symmetric] runs
    using p2(1) g(1) g1 g2 g3 g(2) g4 f(1) f2 f(3) by (intro conjI)
qed

text \<open>
  C9 as stated fails: in the run of the scenario the cleanup function of the
  subscription has been called twice when the last timer has run.
\<close>

theorem cleanup_called_twice:
  "cleanupCalls (subscription
     (arb_run ''doc-3'' [RequestSuccess, GraceTimerFires 2500, SafetyTimerFires 5500] job3)) = 2
   \<and> \<not> timersWaiting
        (arb_run ''doc-3'' [RequestSuccess, GraceTimerFires 2500, SafetyTimerFires 5500] job3)"
  by (simp add: job3_def begin_eval arb_defs timersWaiting_def)

theorem fallback_completes_and_cleans_twice_witness:
  "list_all isProgress extracting \<and> list_all isProgress classifyingMsg
   \<and> list_all isProgress []
   \<and> map status (history (registry
         (arb_run ''doc-3'' (untilFallback extracting classifyingMsg 2500) job3))) = [Completed]
   \<and> map (map message \<circ> steps) (history (registry
         (arb_run ''doc-3'' (untilFallback extracting classifyingMsg 2500) job3)))
       = [[''Extracting'', ''Classifying'']]
   \<and> cleanupCalls (subscription
         (arb_run ''doc-3'' (untilFallback extracting classifyingMsg 2500) job3)) = 1
   \<and> cleanupCalls (subscription
         (arb_run ''doc-3'' (wholeRun extracting classifyingMsg 2500 [] 5500) job3)) = 2"
proof -
  have p: "list_all isProgress extracting" "list_all isProgress classifyingMsg"
    "list_all isProgress []"
    by (simp_all add: extracting_def classifyingMsg_def)
  note T = fallback_completes_and_cleans_twice
    [OF p, where d = "''doc-3''" and f = None and ?t0.0 = 0 and t0' = 0 and reg = emptyRegistry
       and ?t1.0 = 2500 and ?t2.0 = 5500, folded job3_def]
  from T have h: "history (registry
         (arb_run ''doc-3'' (untilFallback extracting classifyingMsg 2500) job3))
       = addToHistory ''doc-3'' 0
             ((startedOp ''doc-3'' None 0 (stepsOf ''doc-3'' (extracting @ classifyingMsg)))
                \<lparr>status := Completed, completedAt := Some 2500\<rparr>)
             (history emptyRegistry)"
    and c1: "cleanupCalls (subscription
         (arb_run ''doc-3'' (untilFallback extracting classifyingMsg 2500) job3)) = 1"
    and c2: "cleanupCalls (subscription
         (arb_run ''doc-3'' (wholeRun extracting classifyingMsg 2500 [] 5500) job3)) = 2"
    by simp_all
  have e1: "map status (history (registry
         (arb_run ''doc-3'' (untilFallback extracting classifyingMsg 2500) job3))) = [Completed]"
    unfolding h
    by (simp add: addToHistory_def isDuplicate_def emptyRegistry_def initialState_def
          loadHistory_def getItem_def MAX_HISTORY_def startedOp_def)
  have e2: "map (map message \<circ> steps) (history (registry
         (arb_run ''doc-3'' (untilFallback extracting classifyingMsg 2500) job3)))
       = [[''Extracting'', ''Classifying'']]"
    unfolding h
    by (simp add: addToHistory_def isDuplicate_def emptyRegistry_def initialState_def
          loadHistory_def getItem_def MAX_HISTORY_def startedOp_def stepsOf_def extracting_def
          classifyingMsg_def)
  from p e1 e2 c1 c2 show ?thesis by (intro conjI)
qed

section \<open>Properties of the event-stream client\<close>

lemma takeWhile_upto: "x \<notin> set L \<Longrightarrow> takeWhile (\<lambda>a. a \<noteq> x) (L @ x # ext) = L"
  by (induction L) auto

lemma dropWhile_upto: "x \<notin> set L \<Longrightarrow> dropWhile (\<lambda>a. a \<noteq> x) (L @ x # ext) = x # ext"
  by (induction L) auto

lemma takeWhile_past:
  "x \<in> set L \<Longrightarrow> takeWhile (\<lambda>a. a \<noteq> x) (L @ ext) = takeWhile (\<lambda>a. a \<noteq> x) L"
  by (induction L) auto

lemma dropWhile_past:
  "x \<in> set L \<Longrightarrow> dropWhile (\<lambda>a. a \<noteq> x) (L @ ext) = dropWhile (\<lambda>a. a \<noteq> x) L @ ext"
  by (induction L) auto

lemma quiet_not_lost: "list_all quiet ext \<Longrightarrow> CallError connectionLost \<notin> set ext"
  by (auto simp: list_all_iff quiet_def)

lemma quiet_filter: "list_all quiet ext \<Longrightarrow> filter isRetry ext = [] \<and> filter isTimer ext = []"
  by (induction ext) (auto simp: quiet_def isRetry_def)

lemma logInv_quiet:
  assumes "logInv L" "list_all quiet ext"
  shows "logInv (L @ ext)"
proof (cases "CallError connectionLost \<in> set L")
  case True
  then show ?thesis
    using assms quiet_not_lost [OF assms(2)] quiet_filter [OF assms(2)]
    by (auto simp: logInv_def dropWhile_past takeWhile_past)
next
  case False
  then show ?thesis using quiet_not_lost [OF assms(2)] by (simp add: logInv_def)
qed

lemma logInv_retry:
  assumes "CallError connectionLost \<notin> set L" "isRetry a"
  shows "logInv (L @ [a])"
  using assms by (auto simp: logInv_def isRetry_def)

lemma logInv_lost:
  assumes "CallError connectionLost \<notin> set L"
    and "maxReconnectAttempts \<le> length (filter isTimer L)"
    and "list_all quiet ext"
  shows "logInv (L @ CallError connectionLost # ext)"
proof -
  have tw: "takeWhile (\<lambda>a. a \<noteq> CallError connectionLost) (L @ CallError connectionLost # ext) = L"
    using assms(1) by (rule takeWhile_upto)
  have dw: "dropWhile (\<lambda>a. a \<noteq> CallError connectionLost) (L @ CallError connectionLost # ext)
      = CallError connectionLost # ext"
    using assms(1) by (rule dropWhile_upto)
  show ?thesis
    unfolding logInv_def tw dw
    using assms quiet_not_lost [OF assms(3)] quiet_filter [OF assms(3)]
    by (simp add: isRetry_def)
qed

lemma act_fields [simp]:
  "actions (act a s) = actions s @ [a]"
  "eventSource (act a s) = eventSource s"
  "reconnectAttempts (act a s) = reconnectAttempts s"
  "isManuallyCloseD (act a s) = isManuallyCloseD s"
  "reconnectTimer (act a s) = reconnectTimer s"
  "pendingTimers (act a s) = pendingTimers s"
  "nextHandle (act a s) = nextHandle s"
  "ctorThrows (act a s) = ctorThrows s"
  by (simp_all add: act_def)

lemma cleanup_fields:
  "isManuallyCloseD (cleanup s)"
  "\<not> eventSource (cleanup s)"
  "reconnectTimer (cleanup s) = None"
  "reconnectAttempts (cleanup s) = reconnectAttempts s"
  "nextHandle (cleanup s) = nextHandle s"
  "ctorThrows (cleanup s) = ctorThrows s"
  by (simp_all add: cleanup_def Let_def split: option.splits)

lemma cleanup_actions:
  "\<exists>ext. actions (cleanup s) = actions s @ ext \<and> list_all quiet ext \<and> CleanupComplete \<in> set ext"
  by (simp add: cleanup_def Let_def quiet_def isRetry_def split: option.splits)

lemma quiet_ext_inv:
  assumes inv: "sseInv s"
    and ext: "actions s' = actions s @ ext" "list_all quiet ext"
    and fields: "isManuallyCloseD s \<longrightarrow> isManuallyCloseD s'"
      "isManuallyCloseD s' \<longrightarrow> \<not> eventSource s' \<and> reconnectTimer s' = None"
      "reconnectAttempts s' \<le> reconnectAttempts s" "nextHandle s' = nextHandle s"
  shows "sseInv s'"
proof -
  have lost: "CallError connectionLost \<in> set (actions s') \<longleftrightarrow> CallError connectionLost \<in> set (actions s)"
    using ext quiet_not_lost [OF ext(2)] by auto
  have tm: "filter isTimer (actions s') = filter isTimer (actions s)"
    using ext quiet_filter [OF ext(2)] by simp
  have "logInv (actions s')"
    unfolding ext(1) using inv ext(2) by (auto simp: sseInv_def intro: logInv_quiet)
  then show ?thesis
    using inv fields lost tm by (auto simp: sseInv_def)
qed

lemma cleanup_inv: "sseInv s \<Longrightarrow> sseInv (cleanup s)"
proof -
  assume inv: "sseInv s"
  obtain ext where ext: "actions (cleanup s) = actions s @ ext" "list_all quiet ext"
    using cleanup_actions by blast
  show ?thesis
    by (rule quiet_ext_inv [OF inv ext]) (simp_all add: cleanup_fields)
qed

lemma act_quiet_inv: "sseInv s \<Longrightarrow> quiet a \<Longrightarrow> sseInv (act a s)"
  by (rule quiet_ext_inv [where ext = "[a]"]) (simp_all add: sseInv_def)

lemma deliver_quiet_inv: "sseInv s \<Longrightarrow> quiet a \<Longrightarrow> sseInv (deliver a reenter s)"
  by (simp add: deliver_def act_quiet_inv cleanup_inv)

lemma timers_count: "sseInv s \<Longrightarrow> length (filter isTimer (actions s)) = nextHandle s - 1"
  by (simp add: sseInv_def)

lemma connect_inv:
  assumes "sseInv s"
  shows "sseInv (connect s)"
proof (cases "isManuallyCloseD s")
  case True
  then show ?thesis using assms by (simp add: connect_def)
next
  case live: False
  show ?thesis
  proof (cases "ctorThrows s")
    case True
    have "quiet (CallError ''Failed to establish connection'')"
      by (simp add: quiet_def isRetry_def connectionLost_def)
    then show ?thesis using assms live True by (simp add: connect_def act_quiet_inv)
  next
    case False
    have "CallError connectionLost \<notin> set (actions s)"
      using assms live by (auto simp: sseInv_def)
    then have "logInv (actions s @ [NewEventSource])"
      by (rule logInv_retry) (simp add: isRetry_def)
    then show ?thesis
      using assms live False by (auto simp: connect_def sseInv_def)
  qed
qed

lemma onopen_inv: "sseInv s \<Longrightarrow> sseInv (onopen s)"
  by (auto simp: onopen_def sseInv_def)

lemma onmessage_inv:
  assumes "sseInv s"
  shows "sseInv (onmessage f reenter s)"
proof -
  have q: "quiet (CallProgress m)" "quiet CallComplete"
    "quiet (CallError ''Server reported an error during classification'')" for m
    by (simp_all add: quiet_def isRetry_def connectionLost_def)
  show ?thesis
  proof (cases f)
    case (ProgressFrame mo)
    then show ?thesis using assms q by (cases mo) (simp_all add: deliver_quiet_inv)
  qed (insert assms q, simp_all add: deliver_quiet_inv cleanup_inv)
qed

lemma reconnectFired_inv:
  assumes "sseInv s"
  shows "sseInv (reconnectFired h s)"
proof (cases "h \<in> set (pendingTimers s)")
  case False
  then show ?thesis using assms by (simp add: reconnectFired_def)
next
  case True
  let ?s1 = "s\<lparr>pendingTimers := removeAll h (pendingTimers s)\<rparr>"
  have 1: "sseInv ?s1" using assms by (simp add: sseInv_def)
  have "quiet CloseEventSource" by (simp add: quiet_def isRetry_def)
  then have 2: "sseInv (if eventSource ?s1 then act CloseEventSource ?s1 else ?s1)"
    using 1 by (simp add: act_quiet_inv del: act_fields)
  show ?thesis
    using True connect_inv [OF 2] by (simp add: reconnectFired_def Let_def)
qed

lemma onerror_inv:
  assumes inv: "sseInv s"
  shows "sseInv (onerror closed reenter s)"
proof (cases "eventSource s \<and> closed")
  case False
  then show ?thesis using inv by (auto simp: onerror_def)
next
  case True
  then have live: "\<not> isManuallyCloseD s" using inv by (auto simp: sseInv_def)
  then have nolost: "CallError connectionLost \<notin> set (actions s)"
    using inv by (auto simp: sseInv_def)
  show ?thesis
  proof (cases "reconnectAttempts s < maxReconnectAttempts")
    case retry: True
    have "logInv (actions s @ [SetTimeout (nextHandle s) reconnectDelay])"
      using nolost by (rule logInv_retry) (simp add: isRetry_def)
    then show ?thesis
      using inv True live retry by (auto simp: onerror_def sseInv_def Let_def)
  next
    case False
    then have bound: "maxReconnectAttempts \<le> reconnectAttempts s" by simp
    let ?s1 = "deliver (CallError connectionLost) reenter s"
    obtain ext1 where ext1: "actions ?s1 = actions s @ CallError connectionLost # ext1"
      "list_all quiet ext1"
    proof (cases reenter)
      case True
      obtain e where "actions (cleanup (act (CallError connectionLost) s))
          = actions (act (CallError connectionLost) s) @ e" "list_all quiet e"
        using cleanup_actions by blast
      then show ?thesis using that True by (simp add: deliver_def)
    next
      case False
      then show ?thesis using that [of "[]"] by (simp add: deliver_def)
    qed
    obtain ext2 where ext2: "actions (cleanup ?s1) = actions ?s1 @ ext2" "list_all quiet ext2"
      using cleanup_actions by blast
    have acts: "actions (cleanup ?s1) = actions s @ CallError connectionLost # (ext1 @ ext2)"
      using ext1 ext2 by simp
    have q: "list_all quiet (ext1 @ ext2)" using ext1 ext2 by simp
    have n: "nextHandle (cleanup ?s1) = nextHandle s"
      "reconnectAttempts (cleanup ?s1) = reconnectAttempts s"
      by (simp_all add: cleanup_fields deliver_def)
    have "reconnectAttempts s < nextHandle s" using inv by (simp add: sseInv_def)
    with bound have "maxReconnectAttempts \<le> nextHandle s - 1" by simp
    then have "maxReconnectAttempts \<le> length (filter isTimer (actions s))"
      using timers_count [OF inv] by simp
    with nolost have li: "logInv (actions s @ CallError connectionLost # (ext1 @ ext2))"
      using q by (rule logInv_lost)
    have tm: "filter isTimer (actions (cleanup ?s1)) = filter isTimer (actions s)"
      unfolding acts using quiet_filter [OF q] by simp
    have "sseInv (cleanup ?s1)"
      using inv li tm n unfolding sseInv_def acts [symmetric]
      by (simp add: cleanup_fields)
    then show ?thesis using True False bound by (simp add: onerror_def)
  qed
qed

lemma sse_step_inv: "sseInv s \<Longrightarrow> sseInv (sse_step e s)"
  by (cases e) (simp_all add: onopen_inv onmessage_inv onerror_inv reconnectFired_inv cleanup_inv)

lemma sse_run_snoc: "sse_run (evs @ [e]) s = sse_step e (sse_run evs s)"
  by (simp add: sse_run_def)

lemma sse_run_inv: "sseInv s \<Longrightarrow> sseInv (sse_run evs s)"
  by (induction evs rule: rev_induct) (simp_all add: sse_run_def sse_step_inv)

lemma subscribe_inv: "sseInv (subscribeToProgress throws)"
  by (cases throws)
     (simp_all add: subscribeToProgress_def connect_def sseInv_def logInv_def
        maxReconnectAttempts_def connectionLost_def)

lemma connect_counters:
  "reconnectAttempts (connect s) = reconnectAttempts s" "nextHandle (connect s) = nextHandle s"
  by (simp_all add: connect_def)

lemma deliver_counters:
  "reconnectAttempts (deliver a r s) = reconnectAttempts s"
  "nextHandle (deliver a r s) = nextHandle s"
  by (simp_all add: deliver_def cleanup_fields)

lemma onmessage_counters:
  "reconnectAttempts (onmessage f r s) = reconnectAttempts s"
  "nextHandle (onmessage f r s) = nextHandle s"
  by (induction f r s rule: onmessage.induct) (simp_all add: deliver_counters cleanup_fields)

lemma sse_step_gap:
  assumes "e \<noteq> Opened" "reconnectAttempts s + k = nextHandle s"
  shows "reconnectAttempts (sse_step e s) + k = nextHandle (sse_step e s)"
  using assms
  by (cases e)
     (auto simp: onmessage_counters onerror_def reconnectFired_def connect_counters
        deliver_counters cleanup_fields Let_def)

lemma sse_run_gap:
  assumes "Opened \<notin> set later" "reconnectAttempts s + k = nextHandle s"
  shows "reconnectAttempts (sse_run later s) + k = nextHandle (sse_run later s)"
  using assms
proof (induction later rule: rev_induct)
  case Nil
  then show ?case by (simp add: sse_run_def)
next
  case (snoc e later)
  then have "e \<noteq> Opened"
    and "reconnectAttempts (sse_run later s) + k = nextHandle (sse_run later s)"
    by auto
  then show ?case unfolding sse_run_snoc by (rule sse_step_gap)
qed

lemma sse_run_append: "sse_run (xs @ ys) s = sse_run ys (sse_run xs s)"
  by (simp add: sse_run_def)

lemma lostCalls_cleanup: "lostCalls (cleanup s) = lostCalls s"
  by (simp add: lostCalls_def cleanup_def Let_def split: option.splits)

lemma lostCalls_deliver:
  "a \<noteq> CallError connectionLost \<Longrightarrow> lostCalls (deliver a r s) = lostCalls s"
  by (simp add: deliver_def lostCalls_cleanup) (simp add: lostCalls_def)

lemma lostCalls_onmessage: "lostCalls (onmessage f r s) = lostCalls s"
  by (induction f r s rule: onmessage.induct)
     (simp_all add: lostCalls_cleanup lostCalls_deliver connectionLost_def)

lemma lostCalls_connect: "lostCalls (connect s) = lostCalls s"
  by (simp add: connect_def lostCalls_def connectionLost_def)

lemma lostCalls_below_bound:
  assumes "reconnectAttempts s < maxReconnectAttempts"
  shows "lostCalls (sse_step e s) = lostCalls s"
proof (cases e)
  case Opened
  then show ?thesis by (simp add: onopen_def lostCalls_def)
next
  case (Message f r)
  then show ?thesis by (simp add: lostCalls_onmessage)
next
  case (ErrorEvent closed r)
  then show ?thesis using assms by (simp add: onerror_def Let_def lostCalls_def)
next
  case (TimerFired h)
  have "lostCalls (if eventSource s then act CloseEventSource
            (s\<lparr>pendingTimers := removeAll h (pendingTimers s)\<rparr>)
          else s\<lparr>pendingTimers := removeAll h (pendingTimers s)\<rparr>) = lostCalls s"
    by (simp add: lostCalls_def)
  then show ?thesis
    using TimerFired by (simp add: reconnectFired_def Let_def lostCalls_connect)
next
  case Unsubscribe
  then show ?thesis by (simp add: lostCalls_cleanup)
qed

lemma lost_fires:
  assumes inv: "sseInv s" and src: "eventSource s"
    and bound: "reconnectAttempts s = maxReconnectAttempts"
  shows "lostCalls s = 0"
    "lostCalls (onerror True reenter s) = 1"
    "CleanupComplete \<in> set (afterLost (onerror True reenter s))"
    "isManuallyCloseD (onerror True reenter s)"
proof -
  have live: "\<not> isManuallyCloseD s" using inv src by (auto simp: sseInv_def)
  then have nolost: "CallError connectionLost \<notin> set (actions s)"
    using inv by (auto simp: sseInv_def)
  then show "lostCalls s = 0" by (simp add: lostCalls_def)
  let ?s1 = "deliver (CallError connectionLost) reenter s"
  have step: "onerror True reenter s = cleanup ?s1"
    using src bound by (simp add: onerror_def)
  obtain ext1 where ext1: "actions ?s1 = actions s @ CallError connectionLost # ext1"
    "list_all quiet ext1"
  proof (cases reenter)
    case True
    obtain e where "actions (cleanup (act (CallError connectionLost) s))
        = actions (act (CallError connectionLost) s) @ e" "list_all quiet e"
      using cleanup_actions by blast
    then show ?thesis using that True by (simp add: deliver_def)
  next
    case False
    then show ?thesis using that [of "[]"] by (simp add: deliver_def)
  qed
  obtain ext2 where ext2: "actions (cleanup ?s1) = actions ?s1 @ ext2" "list_all quiet ext2"
    "CleanupComplete \<in> set ext2"
    using cleanup_actions by blast
  have acts: "actions (onerror True reenter s)
      = actions s @ CallError connectionLost # (ext1 @ ext2)"
    using step ext1 ext2 by simp
  have q: "CallError connectionLost \<notin> set (ext1 @ ext2)"
    using quiet_not_lost [OF ext1(2)] quiet_not_lost [OF ext2(2)] by simp
  show "lostCalls (onerror True reenter s) = 1"
    unfolding lostCalls_def acts using nolost q by simp
  show "CleanupComplete \<in> set (afterLost (onerror True reenter s))"
    unfolding afterLost_def acts using nolost ext2(3) by (simp add: dropWhile_upto)
  show "isManuallyCloseD (onerror True reenter s)"
    unfolding step by (simp add: cleanup_fields)
qed

lemma retry_free_timer: "filter isRetry L = [] \<Longrightarrow> filter isTimer L = []"
  by (induction L) (auto simp: isRetry_def split: if_splits)

lemma isConnect_iff: "isConnect a = (a = NewEventSource)"
  by (cases a) simp_all

lemma quiet_connect: "list_all quiet ext \<Longrightarrow> filter isConnect ext = []"
  by (induction ext) (auto simp: quiet_def isRetry_def isConnect_iff)

lemma quietStep_refl: "quietStep s s"
  by (simp add: quietStep_def)

lemma quietStep_trans:
  assumes "quietStep s s'" "quietStep s' s''"
  shows "quietStep s s''"
proof -
  obtain e1 where e1: "actions s' = actions s @ e1" "list_all quiet e1"
    using assms(1) by (auto simp: quietStep_def)
  obtain e2 where e2: "actions s'' = actions s' @ e2" "list_all quiet e2"
    using assms(2) by (auto simp: quietStep_def)
  have "actions s'' = actions s @ (e1 @ e2) \<and> list_all quiet (e1 @ e2)"
    using e1 e2 by simp
  then have ex: "\<exists>ext. actions s'' = actions s @ ext \<and> list_all quiet ext" by blast
  have rest: "ctorThrows s'' = ctorThrows s"
    "reconnectAttempts s'' = reconnectAttempts s"
    "isManuallyCloseD s \<longrightarrow> isManuallyCloseD s''"
    "pendingTimers s'' = pendingTimers s
       \<or> isManuallyCloseD s'' \<and> length (pendingTimers s'') \<le> length (pendingTimers s)"
    using assms by (auto simp: quietStep_def)
  show ?thesis unfolding quietStep_def using ex rest by blast
qed

lemma quietStep_act: "quiet a \<Longrightarrow> quietStep s (act a s)"
  by (simp add: quietStep_def)

lemma cleanup_pending: "length (pendingTimers (cleanup s)) \<le> length (pendingTimers s)"
  by (simp add: cleanup_def Let_def length_removeAll_less_eq split: option.splits)

lemma quietStep_cleanup: "quietStep s (cleanup s)"
proof -
  obtain ext where "actions (cleanup s) = actions s @ ext" "list_all quiet ext"
    using cleanup_actions by blast
  then show ?thesis
    unfolding quietStep_def using cleanup_pending [of s] by (auto simp: cleanup_fields)
qed

lemma quietStep_deliver: "quiet a \<Longrightarrow> quietStep s (deliver a r s)"
  unfolding deliver_def
  by (auto intro: quietStep_act quietStep_trans [OF quietStep_act quietStep_cleanup])

lemma quietStep_onmessage: "quietStep s (onmessage f r s)"
proof -
  have q: "quiet (CallProgress m)" "quiet CallComplete"
    "quiet (CallError ''Server reported an error during classification'')" for m
    by (simp_all add: quiet_def isRetry_def connectionLost_def)
  show ?thesis
  proof (cases f)
    case (ProgressFrame mo)
    then show ?thesis using q by (cases mo) (simp_all add: quietStep_refl quietStep_deliver)
  next
    case CompleteFrame
    then show ?thesis
      using quietStep_trans [OF quietStep_deliver [OF q(2)] quietStep_cleanup] by simp
  next
    case ErrorFrame
    then show ?thesis
      using quietStep_trans [OF quietStep_deliver [OF q(3)] quietStep_cleanup] by simp
  qed (simp_all add: quietStep_refl)
qed

lemma wInv_quietStep:
  assumes inv: "wInv live s" and q: "quietStep s s'"
    and lv: "live' \<longrightarrow> live \<and> eventSource s' \<and> \<not> isManuallyCloseD s'"
  shows "wInv live' s'"
proof -
  obtain ext where ext: "actions s' = actions s @ ext" "list_all quiet ext"
    using q by (auto simp: quietStep_def)
  have f: "ctorThrows s' = ctorThrows s" "isManuallyCloseD s \<longrightarrow> isManuallyCloseD s'"
    "pendingTimers s' = pendingTimers s
       \<or> isManuallyCloseD s' \<and> length (pendingTimers s') \<le> length (pendingTimers s)"
    "reconnectAttempts s' = reconnectAttempts s"
    using q by (auto simp: quietStep_def)
  have c: "filter isConnect (actions s') = filter isConnect (actions s)"
    using ext quiet_connect [OF ext(2)] by simp
  have t: "filter isTimer (actions s') = filter isTimer (actions s)"
    using ext quiet_filter [OF ext(2)] by simp
  have lost: "CallError connectionLost \<in> set (actions s') \<longleftrightarrow> CallError connectionLost \<in> set (actions s)"
    using ext quiet_not_lost [OF ext(2)] by auto
  have bl: "CallError connectionLost \<in> set (actions s) \<Longrightarrow> beforeLost s' = beforeLost s"
    unfolding beforeLost_def ext(1) by (rule takeWhile_past)
  have len: "length (pendingTimers s') \<le> length (pendingTimers s)"
    using f(3) by auto
  have 1: "live' \<longrightarrow> eventSource s' \<and> \<not> isManuallyCloseD s' \<and> \<not> ctorThrows s' \<and> pendingTimers s' = []"
    using inv lv f by (auto simp: wInv_def)
  have 2: "length (pendingTimers s') \<le> 1" "length (pendingTimers s') \<le> reconnectAttempts s'"
    using inv len f(4) by (simp_all add: wInv_def)
  have 3: "length (filter isConnect (actions s')) + length (pendingTimers s')
           \<le> Suc (length (filter isTimer (actions s')))"
    unfolding c t using inv len by (simp add: wInv_def)
  have 4: "\<not> isManuallyCloseD s' \<and> \<not> ctorThrows s' \<longrightarrow>
           length (filter isConnect (actions s')) + length (pendingTimers s')
             = Suc (length (filter isTimer (actions s')))"
    unfolding c t using inv f by (auto simp: wInv_def)
  have 5: "CallError connectionLost \<in> set (actions s') \<longrightarrow>
           length (filter isConnect (beforeLost s')) = Suc (length (filter isTimer (beforeLost s')))"
    using inv lost bl by (auto simp: wInv_def)
  show ?thesis unfolding wInv_def using 1 2 3 4 5 by blast
qed

lemma pending_single: "length xs \<le> 1 \<Longrightarrow> h \<in> set xs \<Longrightarrow> xs = [h]"
  by (cases xs) auto

lemma wInv_timer:
  assumes inv: "wInv live s" and si: "sseInv s" and h: "h \<in> set (pendingTimers s)"
  shows "wInv (\<not> isManuallyCloseD s \<and> \<not> ctorThrows s) (reconnectFired h s)"
proof -
  have p: "pendingTimers s = [h]"
    using inv h by (auto simp: wInv_def intro: pending_single)
  let ?s1 = "s\<lparr>pendingTimers := []\<rparr>"
  let ?s2 = "if eventSource s then act CloseEventSource ?s1 else ?s1"
  have step: "reconnectFired h s = connect ?s2"
    using h p by (simp add: reconnectFired_def Let_def)
  have qc: "quiet CloseEventSource" by (simp add: quiet_def isRetry_def)
  show ?thesis
  proof (cases "isManuallyCloseD s")
    case True
    then have "\<not> eventSource s" using si by (simp add: sseInv_def)
    then have "reconnectFired h s = ?s1" using step True by (simp add: connect_def)
    moreover have "wInv False ?s1"
      using inv True p by (auto simp: wInv_def beforeLost_def)
    ultimately show ?thesis using True by simp
  next
    case live: False
    then have nolost: "CallError connectionLost \<notin> set (actions s)"
      using si by (auto simp: sseInv_def)
    show ?thesis
    proof (cases "ctorThrows s")
      case True
      then show ?thesis
        using inv live p nolost unfolding step
        by (auto simp: wInv_def connect_def connectionLost_def)
    next
      case False
      then show ?thesis
        using inv live p nolost unfolding step
        by (auto simp: wInv_def connect_def)
    qed
  qed
qed


lemma wInv_onerror:
  assumes inv: "wInv True s" and si: "sseInv s"
  shows "wInv (\<not> closed \<and> eventSource (onerror closed reenter s)) (onerror closed reenter s)"
proof -
  have live: "eventSource s" "\<not> isManuallyCloseD s" "\<not> ctorThrows s" "pendingTimers s = []"
    using inv by (simp_all add: wInv_def)
  have nolost: "CallError connectionLost \<notin> set (actions s)"
    using si live by (auto simp: sseInv_def)
  have eq: "length (filter isConnect (actions s)) = Suc (length (filter isTimer (actions s)))"
    using inv live by (simp add: wInv_def)
  show ?thesis
  proof (cases closed)
    case False
    then show ?thesis using inv live by (simp add: onerror_def)
  next
    case True
    show ?thesis
    proof (cases "reconnectAttempts s < maxReconnectAttempts")
      case retry: True
      then show ?thesis
        using True live nolost eq
        by (simp add: onerror_def Let_def wInv_def)
    next
      case False
      let ?s1 = "deliver (CallError connectionLost) reenter s"
      have step: "onerror closed reenter s = cleanup ?s1"
        using True False live by (simp add: onerror_def)
      obtain ext1 where ext1: "actions ?s1 = actions s @ CallError connectionLost # ext1"
        "list_all quiet ext1"
      proof (cases reenter)
        case True
        obtain e where "actions (cleanup (act (CallError connectionLost) s))
            = actions (act (CallError connectionLost) s) @ e" "list_all quiet e"
          using cleanup_actions by blast
        then show ?thesis using that True by (simp add: deliver_def)
      next
        case False
        then show ?thesis using that [of "[]"] by (simp add: deliver_def)
      qed
      obtain ext2 where ext2: "actions (cleanup ?s1) = actions ?s1 @ ext2" "list_all quiet ext2"
        using cleanup_actions by blast
      have acts: "actions (cleanup ?s1) = actions s @ CallError connectionLost # (ext1 @ ext2)"
        using ext1 ext2 by simp
      have q: "list_all quiet (ext1 @ ext2)" using ext1 ext2 by simp
      have c: "filter isConnect (actions (cleanup ?s1)) = filter isConnect (actions s)"
        unfolding acts using quiet_connect [OF q] by simp
      have t: "filter isTimer (actions (cleanup ?s1)) = filter isTimer (actions s)"
        unfolding acts using quiet_filter [OF q] by simp
      have bl: "beforeLost (cleanup ?s1) = actions s"
        unfolding beforeLost_def acts using nolost by (rule takeWhile_upto)
      have "length (pendingTimers ?s1) \<le> length (pendingTimers s)"
        using cleanup_pending [of "act (CallError connectionLost) s"] by (simp add: deliver_def)
      then have "length (pendingTimers (cleanup ?s1)) \<le> length (pendingTimers s)"
        using cleanup_pending [of ?s1] by simp
      then have p: "pendingTimers (cleanup ?s1) = []" using live by simp
      have "wInv False (cleanup ?s1)"
        unfolding wInv_def c t bl p using eq by (simp add: cleanup_fields)
      then show ?thesis using True unfolding step by simp
    qed
  qed
qed

lemma wInv_step:
  assumes inv: "wInv live s" and si: "sseInv s" and d: "deliverable e live s"
  shows "wInv (liveAfter e live s) (sse_step e s)"
proof (cases e)
  case Opened
  then have live: live using d by simp
  have "wInv (live \<and> eventSource (onopen s)) (onopen s)"
    using inv live by (auto simp: wInv_def onopen_def beforeLost_def)
  then show ?thesis using Opened by simp
next
  case (Message f r)
  have "isManuallyCloseD (onmessage f r s) \<longrightarrow> \<not> eventSource (onmessage f r s)"
    using onmessage_inv [OF si, of f r] by (simp add: sseInv_def)
  then have "wInv (live \<and> eventSource (onmessage f r s)) (onmessage f r s)"
    using inv quietStep_onmessage by (rule_tac wInv_quietStep) auto
  then show ?thesis using Message by simp
next
  case (ErrorEvent closed r)
  then have live: live using d by simp
  then show ?thesis using ErrorEvent wInv_onerror [OF _ si, of closed r] inv by simp
next
  case (TimerFired h)
  then show ?thesis using d wInv_timer [OF inv si, of h] by simp
next
  case Unsubscribe
  have "wInv (live \<and> eventSource (cleanup s)) (cleanup s)"
    using inv quietStep_cleanup by (rule wInv_quietStep) (simp add: cleanup_fields)
  then show ?thesis using Unsubscribe by simp
qed

lemma browserRun_snoc:
  "browserRun (evs @ [e]) live s
     = (browserRun evs live s \<and> deliverable e (liveOf evs live s) (sse_run evs s))"
  by (induction evs arbitrary: live s) (simp_all add: sse_run_def)

lemma liveOf_snoc:
  "liveOf (evs @ [e]) live s = liveAfter e (liveOf evs live s) (sse_run evs s)"
  by (induction evs arbitrary: live s) (simp_all add: sse_run_def)

lemma browserRun_append:
  "browserRun (evs @ later) live s \<Longrightarrow> browserRun evs live s"
  by (induction evs arbitrary: live s) simp_all

lemma wInv_run:
  assumes "wInv live s" "sseInv s" "browserRun evs live s"
  shows "wInv (liveOf evs live s) (sse_run evs s)"
  using assms(3)
proof (induction evs rule: rev_induct)
  case Nil
  then show ?case using assms(1) by (simp add: sse_run_def)
next
  case (snoc e evs)
  then have b: "browserRun evs live s"
    and d: "deliverable e (liveOf evs live s) (sse_run evs s)"
    by (simp_all add: browserRun_snoc)
  have "wInv (liveOf evs live s) (sse_run evs s)" using snoc.IH b by simp
  then show ?case
    unfolding sse_run_snoc liveOf_snoc
    using sse_run_inv [OF assms(2)] d by (rule wInv_step)
qed

lemma wInv_subscribe: "wInv (eventSource (subscribeToProgress throws)) (subscribeToProgress throws)"
  by (cases throws)
     (simp_all add: subscribeToProgress_def connect_def wInv_def beforeLost_def connectionLost_def)

lemma srcInv_step: "srcInv s \<Longrightarrow> srcInv (sse_step e s)"
proof (cases e)
  case (Message f r)
  assume "srcInv s"
  then have "srcInv (onmessage f r s)"
    by (induction f r s rule: onmessage.induct)
       (auto simp: srcInv_def deliver_def cleanup_fields)
  then show ?thesis using Message by simp
qed (auto simp: srcInv_def onopen_def onerror_def reconnectFired_def connect_def Let_def
       deliver_def cleanup_fields)

lemma srcInv_run: "srcInv s \<Longrightarrow> srcInv (sse_run evs s)"
  by (induction evs rule: rev_induct) (simp_all add: sse_run_def srcInv_step)

lemma srcInv_subscribe: "srcInv (subscribeToProgress throws)"
  by (simp add: srcInv_def subscribeToProgress_def connect_def)

lemma ctorThrows_step: "ctorThrows (sse_step e s) = ctorThrows s"
proof (cases e)
  case (Message f r)
  have "ctorThrows (onmessage f r s) = ctorThrows s"
    using quietStep_onmessage [of s f r] by (simp add: quietStep_def)
  then show ?thesis using Message by simp
qed (simp_all add: onopen_def onerror_def reconnectFired_def connect_def Let_def
       deliver_def cleanup_fields)

lemma ctorThrows_run: "ctorThrows (sse_run evs (subscribeToProgress throws)) = throws"
  by (induction evs rule: rev_induct)
     (simp_all add: sse_run_def ctorThrows_step subscribeToProgress_def connect_def)

lemma attempts_mono:
  "e \<noteq> Opened \<Longrightarrow> reconnectAttempts s \<le> reconnectAttempts (sse_step e s)"
  by (cases e)
     (auto simp: onmessage_counters onerror_def reconnectFired_def connect_counters
        deliver_counters cleanup_fields Let_def)

lemma attempts_at_loss:
  assumes inv: "sseInv s" and no: "Opened \<notin> set later"
    and old: "CallError connectionLost \<notin> set (actions s)"
    and new: "CallError connectionLost \<in> set (actions (sse_run later s))"
  shows "reconnectAttempts (sse_run later s) = maxReconnectAttempts"
  using no new
proof (induction later rule: rev_induct)
  case Nil
  then show ?case using old by (simp add: sse_run_def)
next
  case (snoc e later)
  let ?S = "sse_run later s"
  have e: "e \<noteq> Opened" and no': "Opened \<notin> set later" using snoc.prems(1) by auto
  have invS: "sseInv ?S" using inv by (rule sse_run_inv)
  have up: "reconnectAttempts (sse_step e ?S) \<le> maxReconnectAttempts"
    using sse_step_inv [OF invS, of e] by (simp add: sseInv_def)
  have "maxReconnectAttempts \<le> reconnectAttempts ?S"
  proof (cases "CallError connectionLost \<in> set (actions ?S)")
    case True
    then show ?thesis using snoc.IH [OF no'] by simp
  next
    case False
    show ?thesis
    proof (rule ccontr)
      assume "\<not> maxReconnectAttempts \<le> reconnectAttempts ?S"
      then have "lostCalls (sse_step e ?S) = lostCalls ?S"
        by (simp add: lostCalls_below_bound)
      then have "CallError connectionLost \<notin> set (actions (sse_step e ?S))"
        using False by (simp add: lostCalls_def count_list_0_iff)
      then show False using snoc.prems(2) by (simp add: sse_run_snoc)
    qed
  qed
  then show ?case
    unfolding sse_run_snoc using attempts_mono [OF e, of ?S] up by simp
qed

lemma cleanup_connects: "filter isConnect (actions (cleanup s)) = filter isConnect (actions s)"
  by (simp add: cleanup_def Let_def split: option.splits)

lemma deliver_connects:
  "\<not> isConnect a \<Longrightarrow> filter isConnect (actions (deliver a r s)) = filter isConnect (actions s)"
  by (simp add: deliver_def cleanup_connects)

lemma deliver_pending: "length (pendingTimers (deliver a r s)) \<le> length (pendingTimers s)"
  using cleanup_pending [of "act a s"] by (simp add: deliver_def)

lemma drift_step:
  assumes "e \<noteq> Opened"
  shows "length (filter isConnect (actions (sse_step e s))) + length (pendingTimers (sse_step e s))
           + reconnectAttempts s
         \<le> length (filter isConnect (actions s)) + length (pendingTimers s)
           + reconnectAttempts (sse_step e s)"
proof (cases e)
  case Opened
  then show ?thesis using assms by simp
next
  case (Message f r)
  obtain ext where ext: "actions (onmessage f r s) = actions s @ ext" "list_all quiet ext"
    using quietStep_onmessage [of s f r] by (auto simp: quietStep_def)
  have "length (pendingTimers (onmessage f r s)) \<le> length (pendingTimers s)"
    using quietStep_onmessage [of s f r] by (auto simp: quietStep_def)
  then show ?thesis
    using Message ext quiet_connect [OF ext(2)] by (simp add: onmessage_counters)
next
  case (ErrorEvent closed r)
  let ?s1 = "deliver (CallError connectionLost) r s"
  have "length (pendingTimers (cleanup ?s1)) \<le> length (pendingTimers s)"
    using cleanup_pending [of ?s1] deliver_pending [of "CallError connectionLost" r s] by simp
  then show ?thesis
    using ErrorEvent
    by (simp add: onerror_def Let_def cleanup_connects deliver_connects cleanup_fields
          deliver_counters)
next
  case (TimerFired h)
  show ?thesis
  proof (cases "h \<in> set (pendingTimers s)")
    case False
    then show ?thesis using TimerFired by (simp add: reconnectFired_def)
  next
    case True
    then have "length (removeAll h (pendingTimers s)) < length (pendingTimers s)"
      by (rule length_removeAll_less)
    then show ?thesis
      using TimerFired True by (simp add: reconnectFired_def connect_def Let_def)
  qed
next
  case Unsubscribe
  then show ?thesis
    using cleanup_pending [of s] by (simp add: cleanup_connects cleanup_fields)
qed

lemma drift_run:
  assumes "Opened \<notin> set later"
  shows "length (filter isConnect (actions (sse_run later s)))
           + length (pendingTimers (sse_run later s)) + reconnectAttempts s
         \<le> length (filter isConnect (actions s)) + length (pendingTimers s)
           + reconnectAttempts (sse_run later s)"
  using assms
proof (induction later rule: rev_induct)
  case Nil
  then show ?case by (simp add: sse_run_def)
next
  case (snoc e later)
  then have e: "e \<noteq> Opened" and no: "Opened \<notin> set later" by auto
  show ?case
    unfolding sse_run_snoc
    using snoc.IH [OF no] drift_step [OF e, of "sse_run later s"] by simp
qed

text \<open>
  C4, as the code has it. \<^verbatim>\<open>onopen\<close> resets the retry counter to 0, so the bound of 3 is
  on the retries made in a row without a successful open, not on the retries of a
  subscription. In every run of a subscription: the counter never exceeds 3; from any
  point of the run on, while no connection attempt succeeds, the number of retries newly
  scheduled is the growth of the counter, so at most 3; every retry is a timeout of
  2000 ms; a close that finds the counter below 3 schedules a retry, whose timeout, when
  it fires on a client that was not cleaned up, closes the old source and opens a new
  one, and opens nothing on a client that was cleaned up; a close that finds the counter
  at 3 calls \<^verbatim>\<open>onError\<close> with the connection-lost message and runs cleanup; no event
  makes that call while the counter is below 3; the call is made at most once, never
  before three retries were scheduled, and after it no retry is scheduled and no
  connection is opened. A close that comes after the subscriber's own cleanup changes
  nothing, and so does an error event that leaves the source connecting. In every run that a browser can deliver, the retries scheduled before the
  call were also made and had failed: the calls before it hold one more connection than
  timeouts, so at least four connections, and, counted from any point of the run after
  which no attempt opens with success, at least 3 minus the value of the counter at that
  point of them are new. From any point of a run on, while no attempt opens with success,
  the connections newly opened are at most the timeouts pending at that point plus 3
  minus the counter there; after what a browser can deliver that is at most 3.
\<close>

theorem reconnection_bounded:
  "reconnectAttempts (sse_run evs (subscribeToProgress throws)) \<le> maxReconnectAttempts
   \<and> lostCalls (sse_run evs (subscribeToProgress throws)) \<le> 1
   \<and> (CallError connectionLost \<in> set (actions (sse_run evs (subscribeToProgress throws))) \<longrightarrow>
        maxReconnectAttempts
          \<le> length (filter isTimer (beforeLost (sse_run evs (subscribeToProgress throws))))
        \<and> filter isRetry (afterLost (sse_run evs (subscribeToProgress throws))) = []
        \<and> isManuallyCloseD (sse_run evs (subscribeToProgress throws))
        \<and> \<not> eventSource (sse_run evs (subscribeToProgress throws))
        \<and> reconnectTimer (sse_run evs (subscribeToProgress throws)) = None)
   \<and> filter isTimer (actions (sse_run evs (subscribeToProgress throws)))
       = map (\<lambda>h. SetTimeout h reconnectDelay)
           [1..<nextHandle (sse_run evs (subscribeToProgress throws))]
   \<and> (Opened \<notin> set later \<longrightarrow>
        length (filter isTimer (actions (sse_run (evs @ later) (subscribeToProgress throws))))
          + reconnectAttempts (sse_run evs (subscribeToProgress throws))
        = length (filter isTimer (actions (sse_run evs (subscribeToProgress throws))))
          + reconnectAttempts (sse_run (evs @ later) (subscribeToProgress throws)))
   \<and> (reconnectAttempts (sse_run evs (subscribeToProgress throws)) < maxReconnectAttempts \<longrightarrow>
        lostCalls (sse_step e (sse_run evs (subscribeToProgress throws)))
          = lostCalls (sse_run evs (subscribeToProgress throws)))
   \<and> (eventSource (sse_run evs (subscribeToProgress throws))
        \<and> reconnectAttempts (sse_run evs (subscribeToProgress throws)) < maxReconnectAttempts \<longrightarrow>
        actions (sse_step (ErrorEvent True reenter) (sse_run evs (subscribeToProgress throws)))
          = actions (sse_run evs (subscribeToProgress throws))
            @ [SetTimeout (nextHandle (sse_run evs (subscribeToProgress throws))) reconnectDelay]
        \<and> reconnectAttempts
             (sse_step (ErrorEvent True reenter) (sse_run evs (subscribeToProgress throws)))
            = reconnectAttempts (sse_run evs (subscribeToProgress throws)) + 1
        \<and> nextHandle (sse_run evs (subscribeToProgress throws))
             \<in> set (pendingTimers (sse_step (ErrorEvent True reenter)
                                      (sse_run evs (subscribeToProgress throws)))))
   \<and> (eventSource (sse_run evs (subscribeToProgress throws))
        \<and> reconnectAttempts (sse_run evs (subscribeToProgress throws)) = maxReconnectAttempts \<longrightarrow>
        lostCalls (sse_run evs (subscribeToProgress throws)) = 0
        \<and> lostCalls (sse_step (ErrorEvent True reenter)
                       (sse_run evs (subscribeToProgress throws))) = 1
        \<and> CleanupComplete
             \<in> set (afterLost (sse_step (ErrorEvent True reenter)
                                 (sse_run evs (subscribeToProgress throws))))
        \<and> isManuallyCloseD (sse_step (ErrorEvent True reenter)
                               (sse_run evs (subscribeToProgress throws))))
   \<and> maxReconnectAttempts = 3 \<and> reconnectDelay = 2000
   \<and> (isManuallyCloseD (sse_run evs (subscribeToProgress throws)) \<longrightarrow>
        sse_step (ErrorEvent closed reenter) (sse_run evs (subscribeToProgress throws))
          = sse_run evs (subscribeToProgress throws))
   \<and> (h \<in> set (pendingTimers (sse_run evs (subscribeToProgress throws)))
        \<and> \<not> isManuallyCloseD (sse_run evs (subscribeToProgress throws)) \<and> \<not> throws \<longrightarrow>
        actions (sse_step (TimerFired h) (sse_run evs (subscribeToProgress throws)))
          = actions (sse_run evs (subscribeToProgress throws))
            @ [CloseEventSource, NewEventSource]
        \<and> eventSource (sse_step (TimerFired h) (sse_run evs (subscribeToProgress throws)))
        \<and> h \<notin> set (pendingTimers
                      (sse_step (TimerFired h) (sse_run evs (subscribeToProgress throws))))
        \<and> reconnectAttempts
             (sse_step (TimerFired h) (sse_run evs (subscribeToProgress throws)))
            = reconnectAttempts (sse_run evs (subscribeToProgress throws)))
   \<and> (isManuallyCloseD (sse_run evs (subscribeToProgress throws)) \<longrightarrow>
        actions (sse_step (TimerFired h) (sse_run evs (subscribeToProgress throws)))
          = actions (sse_run evs (subscribeToProgress throws)))
   \<and> reconnectAttempts (sse_step Opened (sse_run evs (subscribeToProgress throws))) = 0
   \<and> actions (sse_step Opened (sse_run evs (subscribeToProgress throws)))
       = actions (sse_run evs (subscribeToProgress throws))
   \<and> (browserRun evs (eventSource (subscribeToProgress throws)) (subscribeToProgress throws)
        \<and> CallError connectionLost
             \<in> set (actions (sse_run evs (subscribeToProgress throws))) \<longrightarrow>
        length (filter isConnect (beforeLost (sse_run evs (subscribeToProgress throws))))
          = Suc (length (filter isTimer
                           (beforeLost (sse_run evs (subscribeToProgress throws)))))
        \<and> Suc maxReconnectAttempts
            \<le> length (filter isConnect
                         (beforeLost (sse_run evs (subscribeToProgress throws)))))
   \<and> (browserRun (evs @ later) (eventSource (subscribeToProgress throws))
          (subscribeToProgress throws)
        \<and> Opened \<notin> set later
        \<and> CallError connectionLost
             \<notin> set (actions (sse_run evs (subscribeToProgress throws)))
        \<and> CallError connectionLost
             \<in> set (actions (sse_run (evs @ later) (subscribeToProgress throws))) \<longrightarrow>
        length (filter isConnect (actions (sse_run evs (subscribeToProgress throws))))
          + maxReconnectAttempts
        \<le> length (filter isConnect
                     (beforeLost (sse_run (evs @ later) (subscribeToProgress throws))))
          + reconnectAttempts (sse_run evs (subscribeToProgress throws)))
   \<and> (Opened \<notin> set later \<longrightarrow>
        length (filter isConnect (actions (sse_run (evs @ later) (subscribeToProgress throws))))
          + reconnectAttempts (sse_run evs (subscribeToProgress throws))
        \<le> length (filter isConnect (actions (sse_run evs (subscribeToProgress throws))))
          + length (pendingTimers (sse_run evs (subscribeToProgress throws)))
          + maxReconnectAttempts)
   \<and> (browserRun evs (eventSource (subscribeToProgress throws)) (subscribeToProgress throws)
        \<and> Opened \<notin> set later \<longrightarrow>
        length (filter isConnect (actions (sse_run (evs @ later) (subscribeToProgress throws))))
        \<le> length (filter isConnect (actions (sse_run evs (subscribeToProgress throws))))
          + maxReconnectAttempts)
   \<and> sse_step (ErrorEvent False reenter) (sse_run evs (subscribeToProgress throws))
       = sse_run evs (subscribeToProgress throws)"
proof -
  define S where "S = sse_run evs (subscribeToProgress throws)"
  have inv: "sseInv S"
    unfolding S_def by (rule sse_run_inv) (rule subscribe_inv)
  have 1: "reconnectAttempts S \<le> maxReconnectAttempts"
    using inv by (simp add: sseInv_def)
  have 2: "lostCalls S \<le> 1"
    using inv by (cases "CallError connectionLost \<in> set (actions S)")
      (simp_all add: sseInv_def logInv_def lostCalls_def)
  have 3: "CallError connectionLost \<in> set (actions S) \<longrightarrow>
        maxReconnectAttempts \<le> length (filter isTimer (beforeLost S))
        \<and> filter isRetry (afterLost S) = []
        \<and> isManuallyCloseD S \<and> \<not> eventSource S \<and> reconnectTimer S = None"
    using inv by (auto simp: sseInv_def logInv_def beforeLost_def afterLost_def)
  have 4: "filter isTimer (actions S) = map (\<lambda>h. SetTimeout h reconnectDelay) [1..<nextHandle S]"
    using inv by (simp add: sseInv_def)
  define S' where "S' = sse_run (evs @ later) (subscribeToProgress throws)"
  have inv': "sseInv S'"
    unfolding S'_def by (rule sse_run_inv) (rule subscribe_inv)
  have later: "S' = sse_run later S" by (simp add: S'_def S_def sse_run_append)
  have 5: "Opened \<notin> set later \<longrightarrow>
        length (filter isTimer (actions S')) + reconnectAttempts S
        = length (filter isTimer (actions S)) + reconnectAttempts S'"
  proof
    assume no: "Opened \<notin> set later"
    have lt: "reconnectAttempts S < nextHandle S" using inv by (simp add: sseInv_def)
    define k where "k = nextHandle S - reconnectAttempts S"
    have k: "reconnectAttempts S + k = nextHandle S" using lt by (simp add: k_def)
    have "reconnectAttempts S' + k = nextHandle S'"
      using sse_run_gap [OF no k] later by simp
    then show "length (filter isTimer (actions S')) + reconnectAttempts S
        = length (filter isTimer (actions S)) + reconnectAttempts S'"
      using k lt timers_count [OF inv] timers_count [OF inv'] by simp
  qed
  have 9: "reconnectAttempts S < maxReconnectAttempts \<longrightarrow>
        lostCalls (sse_step e S) = lostCalls S"
    by (simp add: lostCalls_below_bound)
  have live: "eventSource S \<Longrightarrow> \<not> isManuallyCloseD S"
    using inv by (auto simp: sseInv_def)
  have 6: "eventSource S \<and> reconnectAttempts S < maxReconnectAttempts \<longrightarrow>
        actions (sse_step (ErrorEvent True reenter) S)
          = actions S @ [SetTimeout (nextHandle S) reconnectDelay]
        \<and> reconnectAttempts (sse_step (ErrorEvent True reenter) S) = reconnectAttempts S + 1
        \<and> nextHandle S \<in> set (pendingTimers (sse_step (ErrorEvent True reenter) S))"
    using live by (auto simp: onerror_def Let_def)
  have 7: "eventSource S \<and> reconnectAttempts S = maxReconnectAttempts \<longrightarrow>
        lostCalls S = 0
        \<and> lostCalls (sse_step (ErrorEvent True reenter) S) = 1
        \<and> CleanupComplete \<in> set (afterLost (sse_step (ErrorEvent True reenter) S))
        \<and> isManuallyCloseD (sse_step (ErrorEvent True reenter) S)"
    using lost_fires [OF inv] by simp
  have 8: "maxReconnectAttempts = 3" "reconnectDelay = 2000"
    by (simp_all add: maxReconnectAttempts_def reconnectDelay_def)
  have 10: "isManuallyCloseD S \<longrightarrow> sse_step (ErrorEvent closed reenter) S = S"
    using inv by (simp add: sseInv_def onerror_def)
  have src: "srcInv S"
    unfolding S_def by (rule srcInv_run) (rule srcInv_subscribe)
  have thr: "ctorThrows S = throws"
    unfolding S_def by (rule ctorThrows_run)
  have 11: "h \<in> set (pendingTimers S) \<and> \<not> isManuallyCloseD S \<and> \<not> throws \<longrightarrow>
        actions (sse_step (TimerFired h) S) = actions S @ [CloseEventSource, NewEventSource]
        \<and> eventSource (sse_step (TimerFired h) S)
        \<and> h \<notin> set (pendingTimers (sse_step (TimerFired h) S))
        \<and> reconnectAttempts (sse_step (TimerFired h) S) = reconnectAttempts S"
    using src thr by (auto simp: srcInv_def reconnectFired_def connect_def Let_def)
  have 12: "isManuallyCloseD S \<longrightarrow> actions (sse_step (TimerFired h) S) = actions S"
    using inv by (auto simp: sseInv_def reconnectFired_def connect_def Let_def)
  have 13: "reconnectAttempts (sse_step Opened S) = 0" "actions (sse_step Opened S) = actions S"
    by (simp_all add: onopen_def)
  have made: "length (filter isConnect (beforeLost T)) = Suc (length (filter isTimer (beforeLost T)))"
    if b: "browserRun es (eventSource (subscribeToProgress throws)) (subscribeToProgress throws)"
      and T: "T = sse_run es (subscribeToProgress throws)"
      and l: "CallError connectionLost \<in> set (actions T)" for es T
  proof -
    have "wInv (liveOf es (eventSource (subscribeToProgress throws)) (subscribeToProgress throws)) T"
      unfolding T using wInv_subscribe subscribe_inv b by (rule wInv_run)
    then show ?thesis using l by (simp add: wInv_def)
  qed
  have 14: "browserRun evs (eventSource (subscribeToProgress throws)) (subscribeToProgress throws)
        \<and> CallError connectionLost \<in> set (actions S) \<longrightarrow>
        length (filter isConnect (beforeLost S)) = Suc (length (filter isTimer (beforeLost S)))
        \<and> Suc maxReconnectAttempts \<le> length (filter isConnect (beforeLost S))"
  proof (intro impI, elim conjE)
    assume b: "browserRun evs (eventSource (subscribeToProgress throws))
        (subscribeToProgress throws)"
      and l: "CallError connectionLost \<in> set (actions S)"
    have eq: "length (filter isConnect (beforeLost S)) = Suc (length (filter isTimer (beforeLost S)))"
      using b S_def l by (rule made)
    have "maxReconnectAttempts \<le> length (filter isTimer (beforeLost S))"
      using 3 l by simp
    with eq show "length (filter isConnect (beforeLost S))
          = Suc (length (filter isTimer (beforeLost S)))
        \<and> Suc maxReconnectAttempts \<le> length (filter isConnect (beforeLost S))"
      by simp
  qed
  have 15: "browserRun (evs @ later) (eventSource (subscribeToProgress throws))
          (subscribeToProgress throws)
        \<and> Opened \<notin> set later
        \<and> CallError connectionLost \<notin> set (actions S)
        \<and> CallError connectionLost \<in> set (actions S') \<longrightarrow>
        length (filter isConnect (actions S)) + maxReconnectAttempts
        \<le> length (filter isConnect (beforeLost S')) + reconnectAttempts S"
  proof (intro impI, elim conjE)
    assume b: "browserRun (evs @ later) (eventSource (subscribeToProgress throws))
        (subscribeToProgress throws)"
      and no: "Opened \<notin> set later"
      and old: "CallError connectionLost \<notin> set (actions S)"
      and new: "CallError connectionLost \<in> set (actions S')"
    have eq: "length (filter isConnect (beforeLost S'))
        = Suc (length (filter isTimer (beforeLost S')))"
      using b S'_def new by (rule made)
    have "filter isRetry (afterLost S') = []"
      using inv' new by (simp add: sseInv_def logInv_def afterLost_def)
    then have "filter isTimer (afterLost S') = []"
      by (rule retry_free_timer)
    moreover have "actions S' = beforeLost S' @ afterLost S'"
      by (simp add: beforeLost_def afterLost_def)
    ultimately have tm: "length (filter isTimer (beforeLost S'))
        = length (filter isTimer (actions S'))"
      by simp
    have at: "reconnectAttempts S' = maxReconnectAttempts"
      unfolding later using inv no old new [unfolded later] by (rule attempts_at_loss)
    have gap: "length (filter isTimer (actions S')) + reconnectAttempts S
        = length (filter isTimer (actions S)) + reconnectAttempts S'"
      using 5 no by simp
    have "wInv (liveOf evs (eventSource (subscribeToProgress throws)) (subscribeToProgress throws)) S"
      unfolding S_def using wInv_subscribe subscribe_inv browserRun_append [OF b]
      by (rule wInv_run)
    then have "length (filter isConnect (actions S)) \<le> Suc (length (filter isTimer (actions S)))"
      by (simp add: wInv_def)
    then show "length (filter isConnect (actions S)) + maxReconnectAttempts
        \<le> length (filter isConnect (beforeLost S')) + reconnectAttempts S"
      using eq tm at gap by simp
  qed
  have up: "reconnectAttempts S' \<le> maxReconnectAttempts"
    using inv' by (simp add: sseInv_def)
  have 16: "Opened \<notin> set later \<longrightarrow>
        length (filter isConnect (actions S')) + reconnectAttempts S
        \<le> length (filter isConnect (actions S)) + length (pendingTimers S)
          + maxReconnectAttempts"
  proof
    assume no: "Opened \<notin> set later"
    show "length (filter isConnect (actions S')) + reconnectAttempts S
        \<le> length (filter isConnect (actions S)) + length (pendingTimers S)
          + maxReconnectAttempts"
      using drift_run [OF no, of S] up unfolding later by simp
  qed
  have 17: "browserRun evs (eventSource (subscribeToProgress throws)) (subscribeToProgress throws)
        \<and> Opened \<notin> set later \<longrightarrow>
        length (filter isConnect (actions S'))
        \<le> length (filter isConnect (actions S)) + maxReconnectAttempts"
  proof (intro impI, elim conjE)
    assume b: "browserRun evs (eventSource (subscribeToProgress throws))
        (subscribeToProgress throws)"
      and no: "Opened \<notin> set later"
    have "wInv (liveOf evs (eventSource (subscribeToProgress throws)) (subscribeToProgress throws)) S"
      unfolding S_def using wInv_subscribe subscribe_inv b by (rule wInv_run)
    then have "length (pendingTimers S) \<le> reconnectAttempts S"
      by (simp add: wInv_def)
    then show "length (filter isConnect (actions S'))
        \<le> length (filter isConnect (actions S)) + maxReconnectAttempts"
      using 16 no by simp
  qed
  have 18: "sse_step (ErrorEvent False reenter) S = S"
    by (simp add: onerror_def)
  show ?thesis
    unfolding S_def [symmetric] S'_def [symmetric]
    using 1 2 3 4 5 9 6 7 8 10 11 12 13 14 15 16 17 18 by (intro conjI)
qed

theorem reconnection_bounded_witness:
  "eventSource (sse_run [] (subscribeToProgress False))
   \<and> reconnectAttempts (sse_run [] (subscribeToProgress False)) < maxReconnectAttempts
   \<and> actions (sse_step (ErrorEvent True False) (sse_run [] (subscribeToProgress False)))
       = [NewEventSource, SetTimeout 1 2000]
   \<and> 1 \<in> set (pendingTimers (sse_step (ErrorEvent True False)
                                 (sse_run [] (subscribeToProgress False))))
   \<and> lostCalls (sse_step (ErrorEvent True False) (sse_run [] (subscribeToProgress False))) = 0
   \<and> Opened \<notin> set droppedThrice
   \<and> eventSource (sse_run droppedThrice (subscribeToProgress False))
   \<and> reconnectAttempts (sse_run droppedThrice (subscribeToProgress False)) = maxReconnectAttempts
   \<and> length (filter isTimer (actions (sse_run droppedThrice (subscribeToProgress False)))) = 3
   \<and> lostCalls (sse_run droppedThrice (subscribeToProgress False)) = 0
   \<and> lostCalls (sse_step (ErrorEvent True False)
                   (sse_run droppedThrice (subscribeToProgress False))) = 1
   \<and> CallError connectionLost \<in> set (actions (sse_run afterTheLoss (subscribeToProgress False)))
   \<and> filter isRetry (afterLost (sse_run afterTheLoss (subscribeToProgress False))) = []
   \<and> lostCalls (sse_run afterTheLoss (subscribeToProgress False)) = 1
   \<and> isManuallyCloseD (sse_run [Unsubscribe] (subscribeToProgress False))
   \<and> sse_step (ErrorEvent True False) (sse_run [Unsubscribe] (subscribeToProgress False))
       = sse_run [Unsubscribe] (subscribeToProgress False)
   \<and> Opened \<notin> set droppedAgain
   \<and> reconnectAttempts (sse_run reopenedOnce (subscribeToProgress False)) = 0
   \<and> length (filter isTimer (actions (sse_run (reopenedOnce @ droppedAgain)
                                          (subscribeToProgress False))))
       = length (filter isTimer (actions (sse_run reopenedOnce (subscribeToProgress False)))) + 3
   \<and> 1 \<in> set (pendingTimers (sse_run [ErrorEvent True False] (subscribeToProgress False)))
   \<and> \<not> isManuallyCloseD (sse_run [ErrorEvent True False] (subscribeToProgress False))
   \<and> actions (sse_step (TimerFired 1)
                 (sse_run [ErrorEvent True False] (subscribeToProgress False)))
       = [NewEventSource, SetTimeout 1 2000, CloseEventSource, NewEventSource]
   \<and> eventSource (sse_step (TimerFired 1)
                     (sse_run [ErrorEvent True False] (subscribeToProgress False)))
   \<and> 1 \<in> set (pendingTimers (sse_run closedTwiceThenCleaned (subscribeToProgress False)))
   \<and> isManuallyCloseD (sse_run closedTwiceThenCleaned (subscribeToProgress False))
   \<and> actions (sse_step (TimerFired 1)
                 (sse_run closedTwiceThenCleaned (subscribeToProgress False)))
       = actions (sse_run closedTwiceThenCleaned (subscribeToProgress False))
   \<and> browserRun lostAtLast (eventSource (subscribeToProgress False)) (subscribeToProgress False)
   \<and> CallError connectionLost \<in> set (actions (sse_run lostAtLast (subscribeToProgress False)))
   \<and> length (filter isConnect (beforeLost (sse_run lostAtLast (subscribeToProgress False)))) = 4
   \<and> browserRun (reopenedOnce @ lostAgain) (eventSource (subscribeToProgress False))
        (subscribeToProgress False)
   \<and> Opened \<notin> set lostAgain
   \<and> CallError connectionLost
        \<notin> set (actions (sse_run reopenedOnce (subscribeToProgress False)))
   \<and> CallError connectionLost
        \<in> set (actions (sse_run (reopenedOnce @ lostAgain) (subscribeToProgress False)))
   \<and> length (filter isConnect (actions (sse_run reopenedOnce (subscribeToProgress False)))) = 2
   \<and> 5 \<le> length (filter isConnect
                     (beforeLost (sse_run (reopenedOnce @ lostAgain)
                                    (subscribeToProgress False))))
   \<and> length (filter isConnect (actions (sse_run droppedThrice (subscribeToProgress False))))
       \<le> 4
   \<and> browserRun reopenedOnce (eventSource (subscribeToProgress False))
        (subscribeToProgress False)
   \<and> length (filter isConnect (actions (sse_run (reopenedOnce @ droppedAgain)
                                            (subscribeToProgress False))))
       \<le> 5"
proof -
  let ?S0 = "sse_run [] (subscribeToProgress False)"
  let ?S1 = "sse_run [ErrorEvent True False] (subscribeToProgress False)"
  let ?S2 = "sse_run closedTwiceThenCleaned (subscribeToProgress False)"
  let ?S3 = "sse_run droppedThrice (subscribeToProgress False)"
  let ?S4 = "sse_run afterTheLoss (subscribeToProgress False)"
  let ?S5 = "sse_run reopenedOnce (subscribeToProgress False)"
  let ?S6 = "sse_run (reopenedOnce @ droppedAgain) (subscribeToProgress False)"
  let ?S7 = "sse_run lostAtLast (subscribeToProgress False)"
  let ?S8 = "sse_run (reopenedOnce @ lostAgain) (subscribeToProgress False)"
  have h0: "eventSource ?S0" "reconnectAttempts ?S0 < maxReconnectAttempts"
    by code_simp+
  have n0: "actions ?S0 @ [SetTimeout (nextHandle ?S0) reconnectDelay]
      = [NewEventSource, SetTimeout 1 2000]" "nextHandle ?S0 = 1"
    by code_simp+
  have l0: "lostCalls ?S0 = 0" by code_simp
  note T0 = reconnection_bounded
    [where evs = "[]" and throws = False and later = droppedThrice and reenter = False
       and e = "ErrorEvent True False"]
  note T0_5 = T0 [THEN conjunct2, THEN conjunct2, THEN conjunct2, THEN conjunct2,
      THEN conjunct1]
  note T0_6 = T0 [THEN conjunct2, THEN conjunct2, THEN conjunct2, THEN conjunct2,
      THEN conjunct2, THEN conjunct1]
  note T0_7 = T0 [THEN conjunct2, THEN conjunct2, THEN conjunct2, THEN conjunct2,
      THEN conjunct2, THEN conjunct2, THEN conjunct1]
  note T0_9 = T0 [THEN conjunct2, THEN conjunct2, THEN conjunct2, THEN conjunct2,
      THEN conjunct2, THEN conjunct2, THEN conjunct2, THEN conjunct2,
      THEN conjunct1]
  note sched = T0_7 [THEN mp, OF conjI [OF h0]]
  from sched
  have a0: "actions (sse_step (ErrorEvent True False) ?S0)
      = actions ?S0 @ [SetTimeout (nextHandle ?S0) reconnectDelay]"
    by (rule conjunct1)
  from sched
  have p0: "nextHandle ?S0 \<in> set (pendingTimers (sse_step (ErrorEvent True False) ?S0))"
    by (rule conjunct2 [OF conjunct2])
  from T0_6 [THEN mp, OF h0(2)]
  have b0: "lostCalls (sse_step (ErrorEvent True False) ?S0) = 0"
    unfolding l0 .
  have h3: "Opened \<notin> set droppedThrice" "eventSource ?S3"
    "reconnectAttempts ?S3 = maxReconnectAttempts"
    by code_simp+
  have z0: "length (filter isTimer (actions ?S0)) = 0" "reconnectAttempts ?S0 = 0"
    by code_simp+
  from T0_5 [THEN mp, OF h3(1)]
  have a3: "length (filter isTimer (actions ?S3)) = 3"
    using z0 h3(3) T0_9 by simp
  note T3 = reconnection_bounded
    [where evs = droppedThrice and throws = False and later = "[]" and reenter = False
       and e = Opened]
  note T3_8 = T3 [THEN conjunct2, THEN conjunct2, THEN conjunct2, THEN conjunct2,
      THEN conjunct2, THEN conjunct2, THEN conjunct2, THEN conjunct1]
  note L = T3_8 [THEN mp, OF conjI [OF h3(2) h3(3)]]
  from L have b3: "lostCalls ?S3 = 0" by (rule conjunct1)
  from L have c3: "lostCalls (sse_step (ErrorEvent True False) ?S3) = 1"
    by (rule conjunct1 [OF conjunct2])
  have h4: "CallError connectionLost \<in> set (actions ?S4)" "lostCalls ?S4 = 1"
    by code_simp+
  note T4 = reconnection_bounded
    [where evs = afterTheLoss and throws = False and later = "[]" and reenter = False
       and e = Opened]
  note T4_3 = T4 [THEN conjunct2, THEN conjunct2, THEN conjunct1]
  from T4_3 [THEN mp, OF h4(1)] have a4: "filter isRetry (afterLost ?S4) = []"
    by (rule conjunct1 [OF conjunct2])
  have h7: "isManuallyCloseD (sse_run [Unsubscribe] (subscribeToProgress False))"
    by code_simp
  note T7 = reconnection_bounded
    [where evs = "[Unsubscribe]" and throws = False and later = "[]" and reenter = False
       and e = Opened and closed = True]
  note T7_11 = T7 [THEN conjunct2, THEN conjunct2, THEN conjunct2, THEN conjunct2,
      THEN conjunct2, THEN conjunct2, THEN conjunct2, THEN conjunct2,
      THEN conjunct2, THEN conjunct2, THEN conjunct1]
  note a7 = T7_11 [THEN mp, OF h7]
  have h5: "Opened \<notin> set droppedAgain" "reconnectAttempts ?S5 = 0"
    "reconnectAttempts ?S6 = 3"
    by code_simp+
  note T5 = reconnection_bounded
    [where evs = reopenedOnce and throws = False and later = droppedAgain and reenter = False
       and e = Opened]
  note T5_5 = T5 [THEN conjunct2, THEN conjunct2, THEN conjunct2, THEN conjunct2,
      THEN conjunct1]
  from T5_5 [THEN mp, OF h5(1)]
  have a5: "length (filter isTimer (actions ?S6)) = length (filter isTimer (actions ?S5)) + 3"
    using h5(2,3) by simp
  have h1: "1 \<in> set (pendingTimers ?S1)" "\<not> isManuallyCloseD ?S1" "\<not> False"
    by code_simp+
  have n1: "actions ?S1 @ [CloseEventSource, NewEventSource]
      = [NewEventSource, SetTimeout 1 2000, CloseEventSource, NewEventSource]"
    by code_simp
  note T1 = reconnection_bounded
    [where evs = "[ErrorEvent True False]" and throws = False and later = "[]"
       and reenter = False and e = Opened and h = 1]
  note T1_12 = T1 [THEN conjunct2, THEN conjunct2, THEN conjunct2, THEN conjunct2,
      THEN conjunct2, THEN conjunct2, THEN conjunct2, THEN conjunct2,
      THEN conjunct2, THEN conjunct2, THEN conjunct2, THEN conjunct1]
  note retry = T1_12 [THEN mp, OF conjI [OF h1(1) conjI [OF h1(2) h1(3)]]]
  from retry have a1: "actions (sse_step (TimerFired 1) ?S1)
      = actions ?S1 @ [CloseEventSource, NewEventSource]"
    by (rule conjunct1)
  from retry have b1: "eventSource (sse_step (TimerFired 1) ?S1)"
    by (rule conjunct1 [OF conjunct2])
  have h2: "1 \<in> set (pendingTimers ?S2)" "isManuallyCloseD ?S2"
    by code_simp+
  note T2 = reconnection_bounded
    [where evs = closedTwiceThenCleaned and throws = False and later = "[]"
       and reenter = False and e = Opened and h = 1]
  note T2_13 = T2 [THEN conjunct2, THEN conjunct2, THEN conjunct2, THEN conjunct2,
      THEN conjunct2, THEN conjunct2, THEN conjunct2, THEN conjunct2,
      THEN conjunct2, THEN conjunct2, THEN conjunct2, THEN conjunct2,
      THEN conjunct1]
  note a2 = T2_13 [THEN mp, OF h2(2)]
  have h8: "browserRun lostAtLast (eventSource (subscribeToProgress False))
        (subscribeToProgress False)"
    "CallError connectionLost \<in> set (actions ?S7)"
    by code_simp+
  have t8: "length (filter isTimer (beforeLost ?S7)) = 3" by code_simp
  note T8 = reconnection_bounded
    [where evs = lostAtLast and throws = False and later = "[]" and reenter = False
       and e = Opened]
  note T8_16 = T8 [THEN conjunct2, THEN conjunct2, THEN conjunct2, THEN conjunct2,
      THEN conjunct2, THEN conjunct2, THEN conjunct2, THEN conjunct2,
      THEN conjunct2, THEN conjunct2, THEN conjunct2, THEN conjunct2,
      THEN conjunct2, THEN conjunct2, THEN conjunct2, THEN conjunct1]
  from T8_16 [THEN mp, OF conjI [OF h8]]
  have a8: "length (filter isConnect (beforeLost ?S7)) = 4"
    unfolding t8 by simp
  have h9: "browserRun (reopenedOnce @ lostAgain) (eventSource (subscribeToProgress False))
        (subscribeToProgress False)"
    "Opened \<notin> set lostAgain"
    "CallError connectionLost \<notin> set (actions ?S5)"
    "CallError connectionLost \<in> set (actions ?S8)"
    by code_simp+
  have c5: "length (filter isConnect (actions ?S5)) = 2" by code_simp
  note T9 = reconnection_bounded
    [where evs = reopenedOnce and throws = False and later = lostAgain and reenter = False
       and e = Opened]
  note T9_17 = T9 [THEN conjunct2, THEN conjunct2, THEN conjunct2, THEN conjunct2,
      THEN conjunct2, THEN conjunct2, THEN conjunct2, THEN conjunct2,
      THEN conjunct2, THEN conjunct2, THEN conjunct2, THEN conjunct2,
      THEN conjunct2, THEN conjunct2, THEN conjunct2, THEN conjunct2,
      THEN conjunct1]
  from T9_17 [THEN mp, OF conjI [OF h9(1) conjI [OF h9(2) conjI [OF h9(3) h9(4)]]]]
  have a9: "5 \<le> length (filter isConnect (beforeLost ?S8))"
    unfolding c5 h5(2) by (simp add: maxReconnectAttempts_def)
  have c0: "length (filter isConnect (actions ?S0)) = 1" "length (pendingTimers ?S0) = 0"
    by code_simp+
  note T0_18 = T0 [THEN conjunct2, THEN conjunct2, THEN conjunct2, THEN conjunct2,
      THEN conjunct2, THEN conjunct2, THEN conjunct2, THEN conjunct2,
      THEN conjunct2, THEN conjunct2, THEN conjunct2, THEN conjunct2,
      THEN conjunct2, THEN conjunct2, THEN conjunct2, THEN conjunct2,
      THEN conjunct2, THEN conjunct1]
  from T0_18 [THEN mp, OF h3(1)]
  have a10: "length (filter isConnect (actions ?S3)) \<le> 4"
    unfolding c0 z0(2) by (simp add: maxReconnectAttempts_def)
  have h10: "browserRun reopenedOnce (eventSource (subscribeToProgress False))
        (subscribeToProgress False)"
    by code_simp
  note T5_19 = T5 [THEN conjunct2, THEN conjunct2, THEN conjunct2, THEN conjunct2,
      THEN conjunct2, THEN conjunct2, THEN conjunct2, THEN conjunct2,
      THEN conjunct2, THEN conjunct2, THEN conjunct2, THEN conjunct2,
      THEN conjunct2, THEN conjunct2, THEN conjunct2, THEN conjunct2,
      THEN conjunct2, THEN conjunct2, THEN conjunct1]
  from T5_19 [THEN mp, OF conjI [OF h10 h5(1)]]
  have a11: "length (filter isConnect (actions ?S6)) \<le> 5"
    unfolding c5 by (simp add: maxReconnectAttempts_def)
  from h0 a0 [unfolded n0(1)] p0 [unfolded n0(2)] b0 h3 a3 b3 c3 h4(1) a4 h4(2) h7 a7
    h5(1,2) a5 h1(1,2) a1 [unfolded n1] b1 h2 a2 h8 a8 h9 c5 a9 a10 h10 a11
  show ?thesis by (intro conjI)
qed

text \<open>
  C4 as the specification states it bounds the retries of a subscription by 3. On a
  channel that a browser can deliver, on which every retry opens with success and is
  closed again, four retries are scheduled and made, each after its own timeout and on a
  counter that the open before it had reset, and the connection-lost callback is never
  called: the client is still subscribed, with a live source.
\<close>

theorem retries_unbounded_across_opens:
  "browserRun flapping (eventSource (subscribeToProgress False)) (subscribeToProgress False)
   \<and> filter isRetry (actions (sse_run flapping (subscribeToProgress False)))
       = [NewEventSource, SetTimeout 1 2000, NewEventSource, SetTimeout 2 2000, NewEventSource,
          SetTimeout 3 2000, NewEventSource, SetTimeout 4 2000, NewEventSource]
   \<and> length (filter isTimer (actions (sse_run flapping (subscribeToProgress False)))) = 4
   \<and> length (filter isTimer (actions (sse_run flapping (subscribeToProgress False))))
       > maxReconnectAttempts
   \<and> lostCalls (sse_run flapping (subscribeToProgress False)) = 0
   \<and> \<not> isManuallyCloseD (sse_run flapping (subscribeToProgress False))
   \<and> eventSource (sse_run flapping (subscribeToProgress False))
   \<and> liveOf flapping (eventSource (subscribeToProgress False)) (subscribeToProgress False)
   \<and> reconnectAttempts (sse_run flapping (subscribeToProgress False)) = 0"
  by code_simp

section \<open>Further properties\<close>

text \<open>
  Scenario A of the specification: start, two steps and a completion leave the
  active set empty and one history entry, completed, with the two steps in order.
\<close>

lemma scenario_A:
  "activeOperations (run_ops scenarioA emptyRegistry) = []
   \<and> map documentId (history (run_ops scenarioA emptyRegistry)) = [''doc-1'']
   \<and> map status (history (run_ops scenarioA emptyRegistry)) = [Completed]
   \<and> map completedAt (history (run_ops scenarioA emptyRegistry)) = [Some 4]
   \<and> map (map message \<circ> steps) (history (run_ops scenarioA emptyRegistry))
       = [[''Extracting'', ''Classifying'']]"
  by (simp add: scenarioA_def registry_eval)

text \<open>
  \<^verbatim>\<open>removeOperation\<close> drops the active entry and writes no history record, and
  \<^verbatim>\<open>startOperation\<close> on an id that is active replaces the entry by a fresh one with no
  steps; neither changes any other entry, the history or the store.
\<close>

lemma remove_and_restart:
  "getOperation (removeOperation docId s) docId = None
   \<and> history (removeOperation docId s) = history s
   \<and> localStorage (removeOperation docId s) = localStorage s
   \<and> getOperation (startOperation docId fname now s) docId
       = Some \<lparr>documentId = docId, filename = fname, status = Active, steps = [],
               startedAt = now, completedAt = None, error = None\<rparr>
   \<and> history (startOperation docId fname now s) = history s
   \<and> localStorage (startOperation docId fname now s) = localStorage s
   \<and> getOperation (removeOperation docId s) other
       = (if other = docId then None else getOperation s other)
   \<and> getOperation (startOperation docId fname now s) other
       = (if other = docId then getOperation (startOperation docId fname now s) docId
          else getOperation s other)"
  by (simp add: removeOperation_def startOperation_def getOperation_def Map_get_delete
        Map_get_set)

text \<open>
  The cleanup function of a subscription is idempotent: a second call leaves every
  variable of the client and the browser's timeouts as the first call left them, and
  only records one more call.
\<close>

lemma cleanup_idempotent:
  "eventSource (cleanup (cleanup s)) = eventSource (cleanup s)
   \<and> isManuallyCloseD (cleanup (cleanup s)) = isManuallyCloseD (cleanup s)
   \<and> reconnectTimer (cleanup (cleanup s)) = reconnectTimer (cleanup s)
   \<and> reconnectAttempts (cleanup (cleanup s)) = reconnectAttempts (cleanup s)
   \<and> pendingTimers (cleanup (cleanup s)) = pendingTimers (cleanup s)
   \<and> nextHandle (cleanup (cleanup s)) = nextHandle (cleanup s)
   \<and> actions (cleanup (cleanup s)) = actions (cleanup s) @ [CleanupComplete]
   \<and> isManuallyCloseD (cleanup s) \<and> \<not> eventSource (cleanup s)
   \<and> reconnectTimer (cleanup s) = None"
  by (simp add: cleanup_def Let_def act_def split: option.splits)

text \<open>
  A keepalive comment, a frame that does not parse, a \<^verbatim>\<open>connected\<close> frame, a
  progress frame without a message and a frame of an unknown type leave the client as
  it is: the connection stays open and no callback is made.
\<close>

lemma skipped_frames:
  "onmessage Keepalive reenter s = s
   \<and> onmessage Unparsable reenter s = s
   \<and> onmessage ConnectedFrame reenter s = s
   \<and> onmessage (ProgressFrame None) reenter s = s
   \<and> onmessage OtherFrame reenter s = s"
  by simp

text \<open>
  After \<^verbatim>\<open>clearHistory\<close> and the history effect that follows it, the store holds an
  empty history snapshot and no active snapshot, whatever is active in memory: a page
  load from that store restores no active operation.
\<close>

lemma reload_after_clearHistory:
  "getItem (localStorage (persistHistory True (clearHistory s))) STORAGE_KEY = Some []
   \<and> getItem (localStorage (persistHistory True (clearHistory s))) ACTIVE_STORAGE_KEY = None
   \<and> activeOperations (persistHistory True (clearHistory s)) = activeOperations s
   \<and> activeOperations (mount now (localStorage (persistHistory True (clearHistory s)))) = []
   \<and> history (mount now (localStorage (persistHistory True (clearHistory s)))) = []"
  by (simp add: clearHistory_def persistHistory_def getItem_def setItem_def removeItem_def
        STORAGE_KEY_def ACTIVE_STORAGE_KEY_def mount_def staleEffect_def initialState_def
        loadActive_def loadHistory_def Map_values_def Let_def)

text \<open>
  The error handler does not tell a second close of a source from the first. Four closes
  delivered on the first source, which no browser does, use up the counter and lose the
  connection with no retry made.
\<close>

lemma four_closes_on_one_source:
  "lostCalls (sse_run (replicate 4 (ErrorEvent True False)) (subscribeToProgress False)) = 1
   \<and> filter isConnect
        (actions (sse_run (replicate 4 (ErrorEvent True False)) (subscribeToProgress False)))
       = [NewEventSource]
   \<and> \<not> browserRun (replicate 4 (ErrorEvent True False))
          (eventSource (subscribeToProgress False)) (subscribeToProgress False)"
  by code_simp

text \<open>
  The retries of a subscription are not bounded. On the channel on which each of \<open>n\<close>
  retries opens with success and is closed again, which a browser can deliver, the client
  schedules \<open>n\<close> timeouts, opens \<open>n + 1\<close> connections, never makes the connection-lost
  call, and is left subscribed on a live source with the counter at 0.
\<close>

lemma flap_state:
  "eventSource (sse_run (flap n) (subscribeToProgress False))
   \<and> \<not> isManuallyCloseD (sse_run (flap n) (subscribeToProgress False))
   \<and> \<not> ctorThrows (sse_run (flap n) (subscribeToProgress False))
   \<and> reconnectAttempts (sse_run (flap n) (subscribeToProgress False)) = 0
   \<and> pendingTimers (sse_run (flap n) (subscribeToProgress False)) = []
   \<and> nextHandle (sse_run (flap n) (subscribeToProgress False)) = Suc n
   \<and> lostCalls (sse_run (flap n) (subscribeToProgress False)) = 0
   \<and> length (filter isTimer (actions (sse_run (flap n) (subscribeToProgress False)))) = n
   \<and> length (filter isConnect (actions (sse_run (flap n) (subscribeToProgress False)))) = Suc n"
proof (induction n)
  case 0
  show ?case
    by (simp add: sse_run_def subscribeToProgress_def connect_def lostCalls_def
          connectionLost_def)
next
  case (Suc n)
  let ?S = "sse_run (flap n) (subscribeToProgress False)"
  have run: "sse_run (flap (Suc n)) (subscribeToProgress False)
      = onopen (reconnectFired (Suc n) (onerror True False ?S))"
    by (simp add: sse_run_def)
  show ?case
    unfolding run using Suc.IH
    by (simp add: onopen_def reconnectFired_def onerror_def connect_def Let_def
          maxReconnectAttempts_def lostCalls_def connectionLost_def)
qed

lemma flap_browser:
  "browserRun (flap n) (eventSource (subscribeToProgress False)) (subscribeToProgress False)
   \<and> liveOf (flap n) (eventSource (subscribeToProgress False)) (subscribeToProgress False)"
proof (induction n)
  case 0
  show ?case by (simp add: subscribeToProgress_def connect_def)
next
  case (Suc n)
  note st = flap_state [of n]
  have b: "browserRun (xs @ ys) live s
      = (browserRun xs live s \<and> browserRun ys (liveOf xs live s) (sse_run xs s))"
    for xs ys live s
    by (induction xs arbitrary: live s) (simp_all add: sse_run_def)
  have l: "liveOf (xs @ ys) live s = liveOf ys (liveOf xs live s) (sse_run xs s)"
    for xs ys live s
    by (induction xs arbitrary: live s) (simp_all add: sse_run_def)
  show ?case
    using Suc.IH st
    by (simp add: b l onerror_def reconnectFired_def connect_def Let_def
          maxReconnectAttempts_def onopen_def)
qed

end
